theory Spec2Isabelle
  imports Main "HOL-Library.Sublist"
begin

section \<open>General type shims\<close>

text \<open>
  \<^verbatim>\<open>type Optional<T> = T | undefined | null\<close>. The three alternatives are kept apart,
  because \<^verbatim>\<open>Trie.add\<close> tests \<^verbatim>\<open>value !== undefined\<close>, which \<^verbatim>\<open>null\<close> passes.
\<close>

datatype 'a Optional = Undefined | Null | Present 'a

text \<open>
  A JavaScript \<^verbatim>\<open>Map<string, V>\<close> keeps its entries in insertion order; \<^verbatim>\<open>set\<close> on a
  key that is already there replaces the value in place, on a new key it appends.
\<close>

fun Map_get :: "(string \<times> 'v) list \<Rightarrow> string \<Rightarrow> 'v option" where
  "Map_get [] k = None"
| "Map_get ((k', v) # es) k = (if k' = k then Some v else Map_get es k)"

fun Map_set :: "string \<Rightarrow> 'v \<Rightarrow> (string \<times> 'v) list \<Rightarrow> (string \<times> 'v) list" where
  "Map_set k v [] = [(k, v)]"
| "Map_set k v ((k', v') # es) = (if k' = k then (k, v) # es else (k', v') # Map_set k v es)"

section \<open>Fundamental domain\<close>

datatype KeyClassification = NoKey | SpecialKey | NormalKey

text \<open>
  \<^verbatim>\<open>class KeyPress\<close>. The field \<^verbatim>\<open>key\<close> is declared \<^verbatim>\<open>string\<close>, so the tests of
  \<^verbatim>\<open>classification\<close> against \<^verbatim>\<open>null\<close> and \<^verbatim>\<open>undefined\<close> are false on every value
  of the type. Strings are byte lists; the two symbols of \<^verbatim>\<open>repr\<close> outside ASCII
  (U+2318 and U+21E7) are written as their UTF-8 bytes.
\<close>

record KeyPress =
  key :: string
  alt :: bool
  ctrl :: bool
  shift :: bool
  meta :: bool

definition KeyPress_new :: "string \<Rightarrow> bool \<Rightarrow> bool \<Rightarrow> bool \<Rightarrow> bool \<Rightarrow> KeyPress" where
  "KeyPress_new k sh al ct me = \<lparr>key = k, alt = al, ctrl = ct, shift = sh, meta = me\<rparr>"

definition KeyPress_ctrl :: "string \<Rightarrow> KeyPress" where
  "KeyPress_ctrl k = KeyPress_new k False False True False"

definition KeyPress_alt :: "string \<Rightarrow> KeyPress" where
  "KeyPress_alt k = KeyPress_new k False True False False"

definition KeyPress_shift :: "string \<Rightarrow> KeyPress" where
  "KeyPress_shift k = KeyPress_new k True False False False"

definition KeyPress_meta :: "string \<Rightarrow> KeyPress" where
  "KeyPress_meta k = KeyPress_new k False False False True"

definition KeyPress_just :: "string \<Rightarrow> KeyPress" where
  "KeyPress_just k = KeyPress_new k False False False False"

definition KeyPress_ctrlAlt :: "string \<Rightarrow> KeyPress" where
  "KeyPress_ctrlAlt k = KeyPress_new k False True True False"

record KeyboardEvent =
  event_key :: string
  shiftKey :: bool
  ctrlKey :: bool
  altKey :: bool
  metaKey :: bool

definition fromEvent :: "KeyboardEvent \<Rightarrow> KeyPress" where
  "fromEvent event =
     KeyPress_new (event_key event) (shiftKey event) (altKey event) (ctrlKey event) (metaKey event)"

definition metaMarker :: string where
  "metaMarker = [CHR 0xE2, CHR 0x8C, CHR 0x98] @ '' + ''"

definition altMarker :: string where
  "altMarker = ''Alt + ''"

definition ctrlMarker :: string where
  "ctrlMarker = ''Ctrl + ''"

definition shiftMarker :: string where
  "shiftMarker = [CHR 0xE2, CHR 0x87, CHR 0xA7] @ '' + ''"

definition repr :: "KeyPress \<Rightarrow> string" where
  "repr p =
     (let metaRepr = (if meta p then metaMarker else '''');
          altRepr = (if alt p then altMarker else '''');
          ctrlRepr = (if ctrl p then ctrlMarker else '''');
          shiftRepr = (if shift p then shiftMarker else '''')
      in metaRepr @ ctrlRepr @ altRepr @ shiftRepr @ key p)"

definition serialize :: "KeyPress \<Rightarrow> string" where
  "serialize p = repr p"

definition classification :: "KeyPress \<Rightarrow> KeyClassification" where
  "classification p =
     (if key p = ''Alt'' \<or> key p = ''Control'' \<or> key p = ''Shift'' \<or> key p = ''Meta''
      then NoKey
      else if key p = ''Enter'' \<or> key p = ''Escape'' then SpecialKey
      else NormalKey)"

record KeyMap =
  sequence :: "KeyPress list"
  commandID :: string

definition KeyMap_new :: "string \<Rightarrow> KeyPress list \<Rightarrow> KeyMap" where
  "KeyMap_new c s = \<lparr>sequence = s, commandID = c\<rparr>"

section \<open>Trie\<close>

datatype 'a TrieNode =
  TrieNode (children: "(string \<times> 'a TrieNode) list") (val: "'a Optional")

text \<open>\<^verbatim>\<open>new TrieNode()\<close>: an empty child map, and \<^verbatim>\<open>value\<close> never assigned.\<close>

definition TrieNode_new :: "'a TrieNode" where
  "TrieNode_new = TrieNode [] Undefined"

definition child :: "'a TrieNode \<Rightarrow> string \<Rightarrow> 'a TrieNode option" where
  "child n k = Map_get (children n) k"

definition addChild :: "string \<Rightarrow> 'a TrieNode \<Rightarrow> 'a TrieNode \<Rightarrow> 'a TrieNode" where
  "addChild k c n = TrieNode (Map_set k c (children n)) Null"

definition isLeaf :: "'a TrieNode \<Rightarrow> bool" where
  "isLeaf n = (length (children n) = 0)"

definition setValue :: "'a \<Rightarrow> 'a TrieNode \<Rightarrow> 'a TrieNode" where
  "setValue v n = TrieNode (children n) (Present v)"

function leaves :: "'a TrieNode \<Rightarrow> 'a TrieNode list" where
  "leaves n =
     (if isLeaf n then [n] else concat (map (\<lambda>e. leaves (snd e)) (children n)))"
  by pat_completeness auto
termination
proof (relation "measure size")
  show "wf (measure size)" by simp
next
  fix n :: "'a TrieNode" and e
  assume e: "e \<in> set (children n)"
  have entry: "size c < Suc (size_list (size_prod (\<lambda>_. 0) size) es)"
    if "(k, c) \<in> set es" for k :: string and c :: "'a TrieNode" and es
    using that by (induction es) auto
  obtain k c where kc: "e = (k, c)" by (cases e)
  with e have "size c < Suc (size_list (size_prod (\<lambda>_. 0) size) (children n))"
    by (auto intro: entry)
  moreover have "Suc (size_list (size_prod (\<lambda>_. 0) size) (children n)) \<le> size n"
    by (cases n) simp
  ultimately have "size (snd e) < size n" using kc by simp
  then show "(snd e, n) \<in> measure size" by simp
qed

definition leafValues :: "'a TrieNode \<Rightarrow> 'a Optional list" where
  "leafValues n = map val (leaves n)"

text \<open>
  \<^verbatim>\<open>class Trie<T extends HashIter>\<close>, at its only instance \<^verbatim>\<open>Trie<KeyMap>\<close>. The
  exception of \<^verbatim>\<open>add\<close> is raised after the walk has already called \<^verbatim>\<open>addChild\<close>
  on every node of the path, so the result carries the trie as the call leaves it
  together with the outcome.
\<close>

datatype error = DuplicateKeymap

record Trie =
  root :: "KeyMap TrieNode"

definition Trie_new :: Trie where
  "Trie_new = \<lparr>root = TrieNode_new\<rparr>"

text \<open>
  The loop of \<^verbatim>\<open>add\<close> from \<^verbatim>\<open>lastSeenNode\<close> on, over the components still to come.
  The child map of \<^verbatim>\<open>lastSeenNode\<close> holds a reference to \<^verbatim>\<open>child\<close>, which the rest of
  the loop mutates: the entry written by \<^verbatim>\<open>addChild\<close> is the child as the loop leaves it.
\<close>

fun Trie_add_from ::
  "KeyPress list \<Rightarrow> KeyMap \<Rightarrow> KeyMap TrieNode \<Rightarrow> (error + unit) \<times> KeyMap TrieNode" where
  "Trie_add_from [] composite lastSeenNode =
     (if val lastSeenNode \<noteq> Undefined then (Inl DuplicateKeymap, lastSeenNode)
      else (Inr (), setValue composite lastSeenNode))"
| "Trie_add_from (component # rest) composite lastSeenNode =
     (let k = serialize component;
          c = (case child lastSeenNode k of Some c \<Rightarrow> c | None \<Rightarrow> TrieNode_new);
          rc = Trie_add_from rest composite c
      in (fst rc, addChild k (snd rc) lastSeenNode))"

definition Trie_add :: "KeyMap \<Rightarrow> Trie \<Rightarrow> (error + unit) \<times> Trie" where
  "Trie_add composite t =
     (let rn = Trie_add_from (sequence composite) composite (root t)
      in (fst rn, \<lparr>root = snd rn\<rparr>))"

fun bestMatch_from :: "'a TrieNode \<Rightarrow> KeyPress list \<Rightarrow> 'a TrieNode option" where
  "bestMatch_from lastNode [] = Some lastNode"
| "bestMatch_from lastNode (keyPress # rest) =
     (case child lastNode (serialize keyPress) of
        None \<Rightarrow> None
      | Some c \<Rightarrow> bestMatch_from c rest)"

definition bestMatch :: "Trie \<Rightarrow> KeyPress list \<Rightarrow> KeyMap TrieNode option" where
  "bestMatch t s = bestMatch_from (root t) s"

definition contains :: "Trie \<Rightarrow> KeyPress list \<Rightarrow> bool" where
  "contains t s = (bestMatch t s \<noteq> None)"

text \<open>
  The loop of \<^verbatim>\<open>_loadKeymaps\<close>, which adds the stored keymaps one by one to a new
  trie; an exception of \<^verbatim>\<open>add\<close> ends it.
\<close>

fun addAll :: "KeyMap list \<Rightarrow> Trie \<Rightarrow> (error + unit) \<times> Trie" where
  "addAll [] t = (Inr (), t)"
| "addAll (keymap # rest) t =
     (case Trie_add keymap t of
        (Inl e, t') \<Rightarrow> (Inl e, t')
      | (Inr u, t') \<Rightarrow> addAll rest t')"

section \<open>Matching of existing keymaps\<close>

text \<open>
  \<^verbatim>\<open>enum MatchClassification\<close> and \<^verbatim>\<open>enum KeyMatchingState\<close> both have a member
  \<^verbatim>\<open>NoMatch\<close>; the members of the first carry the prefix \<open>MC_\<close> here. The matcher keeps
  a reference to the trie; the plugin builds the trie before it constructs the matcher
  and never adds to it afterwards, so the field is a value that no call changes.
\<close>

datatype MatchClassification = MC_NoMatch | MC_PartialMatch | MC_FullMatch

datatype KeyMatchingState =
  NoMatch | StartedMatch | RetainedMatch | ImprovedMatch | SuccessMatch | InvalidMatch

record KeyMatcher =
  trie :: Trie
  currentState :: KeyMatchingState
  currentSequence :: "KeyPress list"
  currentMatches :: "KeyMap Optional list"

definition KeyMatcher_new :: "Trie \<Rightarrow> KeyMatcher" where
  "KeyMatcher_new t =
     \<lparr>trie = t, currentState = NoMatch, currentSequence = [], currentMatches = []\<rparr>"

definition KeyMatcher_reset :: "KeyMatcher \<Rightarrow> KeyMatcher" where
  "KeyMatcher_reset m = m\<lparr>currentState := NoMatch, currentSequence := [], currentMatches := []\<rparr>"

definition classify :: "'a TrieNode option \<Rightarrow> MatchClassification" where
  "classify bm =
     (case bm of
        None \<Rightarrow> MC_NoMatch
      | Some n \<Rightarrow> if isLeaf n then MC_FullMatch else MC_PartialMatch)"

text \<open>
  \<^verbatim>\<open>KeyMatcher.advance\<close>. Every branch returns \<^verbatim>\<open>this.currentState\<close>, so the value
  returned is the \<open>currentState\<close> of the matcher returned here.
\<close>

function KeyMatcher_advance :: "KeyMatcher \<Rightarrow> KeyPress \<Rightarrow> KeyMatcher" where
  "KeyMatcher_advance m keypress =
     (let m1 = m\<lparr>currentSequence := currentSequence m @ [keypress]\<rparr>;
          bm = bestMatch (trie m1) (currentSequence m1);
          matchClassification = classify bm;
          m2 = m1\<lparr>currentMatches := (case bm of Some n \<Rightarrow> leafValues n | None \<Rightarrow> [])\<rparr>;
          continued =
            (if classification keypress = NoKey
             then m2\<lparr>currentSequence := butlast (currentSequence m2),
                     currentState := RetainedMatch\<rparr>
             else if matchClassification = MC_NoMatch
             then m2\<lparr>currentState := InvalidMatch\<rparr>
             else if matchClassification = MC_FullMatch
             then m2\<lparr>currentState := SuccessMatch\<rparr>
             else m2\<lparr>currentState := ImprovedMatch\<rparr>)
      in case currentState m2 of
           NoMatch \<Rightarrow>
             if matchClassification = MC_NoMatch
             then (KeyMatcher_reset m2)\<lparr>currentState := NoMatch\<rparr>
             else if matchClassification = MC_FullMatch
             then m2\<lparr>currentState := SuccessMatch\<rparr>
             else m2\<lparr>currentState := StartedMatch\<rparr>
         | StartedMatch \<Rightarrow> continued
         | RetainedMatch \<Rightarrow> continued
         | ImprovedMatch \<Rightarrow> continued
         | SuccessMatch \<Rightarrow> KeyMatcher_advance (KeyMatcher_reset m2) keypress
         | InvalidMatch \<Rightarrow> KeyMatcher_advance (KeyMatcher_reset m2) keypress)"
  by pat_completeness auto
termination
  by (relation "measure (\<lambda>(m, k). if currentState m = SuccessMatch \<or> currentState m = InvalidMatch
                                    then 1 else 0)")
     (auto simp: KeyMatcher_reset_def)

declare KeyMatcher_advance.simps [simp del]

definition allMatches :: "KeyMatcher \<Rightarrow> KeyMap Optional list" where
  "allMatches m = currentMatches m"

definition fullMatch :: "KeyMatcher \<Rightarrow> KeyMap Optional" where
  "fullMatch m =
     (let numMatches = length (allMatches m);
          isFullMatch = (currentState m = SuccessMatch)
      in if isFullMatch \<and> numMatches \<noteq> 1 then Null
         else if isFullMatch \<and> numMatches = 1 then currentMatches m ! 0
         else Null)"

text \<open>
  The same call with the depth of the call stack bounded: \<open>None\<close> when \<open>advance\<close> would
  have to call itself with no frame left.
\<close>

fun KeyMatcher_advance_depth :: "nat \<Rightarrow> KeyMatcher \<Rightarrow> KeyPress \<Rightarrow> KeyMatcher option" where
  "KeyMatcher_advance_depth 0 m keypress = None"
| "KeyMatcher_advance_depth (Suc d) m keypress =
     (let m1 = m\<lparr>currentSequence := currentSequence m @ [keypress]\<rparr>;
          bm = bestMatch (trie m1) (currentSequence m1);
          matchClassification = classify bm;
          m2 = m1\<lparr>currentMatches := (case bm of Some n \<Rightarrow> leafValues n | None \<Rightarrow> [])\<rparr>;
          continued =
            (if classification keypress = NoKey
             then m2\<lparr>currentSequence := butlast (currentSequence m2),
                     currentState := RetainedMatch\<rparr>
             else if matchClassification = MC_NoMatch
             then m2\<lparr>currentState := InvalidMatch\<rparr>
             else if matchClassification = MC_FullMatch
             then m2\<lparr>currentState := SuccessMatch\<rparr>
             else m2\<lparr>currentState := ImprovedMatch\<rparr>)
      in case currentState m2 of
           NoMatch \<Rightarrow>
             Some (if matchClassification = MC_NoMatch
                   then (KeyMatcher_reset m2)\<lparr>currentState := NoMatch\<rparr>
                   else if matchClassification = MC_FullMatch
                   then m2\<lparr>currentState := SuccessMatch\<rparr>
                   else m2\<lparr>currentState := StartedMatch\<rparr>)
         | StartedMatch \<Rightarrow> Some continued
         | RetainedMatch \<Rightarrow> Some continued
         | ImprovedMatch \<Rightarrow> Some continued
         | SuccessMatch \<Rightarrow> KeyMatcher_advance_depth d (KeyMatcher_reset m2) keypress
         | InvalidMatch \<Rightarrow> KeyMatcher_advance_depth d (KeyMatcher_reset m2) keypress)"

section \<open>The key-down handler of the plugin\<close>

text \<open>
  \<^verbatim>\<open>LeaderHotkeysPlugin.handleKeyDown\<close>. Its effects are the new state of the matcher,
  whether \<^verbatim>\<open>event.preventDefault()\<close> was called, and the command handed to
  \<^verbatim>\<open>executeCommandById\<close> by \<^verbatim>\<open>invoke\<close>, if any. The console messages are left out.
\<close>

record KeyDownEffect =
  matcher :: KeyMatcher
  defaultPrevented :: bool
  executed :: "string option"

definition invoke :: "KeyMap Optional \<Rightarrow> string option" where
  "invoke keymap = (case keymap of Present k \<Rightarrow> Some (commandID k) | _ \<Rightarrow> None)"

definition handleKeyDown :: "KeyMatcher \<Rightarrow> KeyboardEvent \<Rightarrow> KeyDownEffect" where
  "handleKeyDown m event =
     (let keypress = fromEvent event;
          m' = KeyMatcher_advance m keypress
      in case currentState m' of
           NoMatch \<Rightarrow> \<lparr>matcher = m', defaultPrevented = False, executed = None\<rparr>
         | InvalidMatch \<Rightarrow> \<lparr>matcher = m', defaultPrevented = True, executed = None\<rparr>
         | StartedMatch \<Rightarrow> \<lparr>matcher = m', defaultPrevented = True, executed = None\<rparr>
         | RetainedMatch \<Rightarrow> \<lparr>matcher = m', defaultPrevented = True, executed = None\<rparr>
         | ImprovedMatch \<Rightarrow> \<lparr>matcher = m', defaultPrevented = True, executed = None\<rparr>
         | SuccessMatch \<Rightarrow>
             \<lparr>matcher = m', defaultPrevented = True, executed = invoke (fullMatch m')\<rparr>)"

section \<open>Registering of new keymaps\<close>

datatype KeyRegisterState =
  NoKeys | FirstKey | AddedKeys | RetainedKeys | BacktrackedKey | PendingConfirmation
  | FinishedRegistering

text \<open>
  \<^verbatim>\<open>class RegisterMachine\<close>; its fields \<^verbatim>\<open>currentState\<close> and \<^verbatim>\<open>currentSequence\<close> are
  named \<open>registerState\<close> and \<open>registerSequence\<close> here, apart from those of the matcher.
\<close>

record RegisterMachine =
  registerState :: KeyRegisterState
  registerSequence :: "KeyPress list"

definition RegisterMachine_new :: RegisterMachine where
  "RegisterMachine_new = \<lparr>registerState = NoKeys, registerSequence = []\<rparr>"

definition RegisterMachine_reset :: "RegisterMachine \<Rightarrow> RegisterMachine" where
  "RegisterMachine_reset r = r\<lparr>registerState := NoKeys, registerSequence := []\<rparr>"

function RegisterMachine_advance :: "RegisterMachine \<Rightarrow> KeyPress \<Rightarrow> RegisterMachine" where
  "RegisterMachine_advance r event =
     (let r1 = r\<lparr>registerSequence := registerSequence r @ [event]\<rparr>;
          cl = classification event;
          added =
            (if cl = NoKey
             then r1\<lparr>registerSequence := butlast (registerSequence r1),
                     registerState := RetainedKeys\<rparr>
             else if cl = SpecialKey
             then r1\<lparr>registerState := PendingConfirmation\<rparr>
             else r1\<lparr>registerState := AddedKeys\<rparr>)
      in case registerState r1 of
           NoKeys \<Rightarrow>
             if cl = NoKey
             then r1\<lparr>registerSequence := butlast (registerSequence r1),
                     registerState := RetainedKeys\<rparr>
             else if cl = SpecialKey
             then r1\<lparr>registerState := PendingConfirmation\<rparr>
             else r1\<lparr>registerState := FirstKey\<rparr>
         | FirstKey \<Rightarrow> added
         | RetainedKeys \<Rightarrow> added
         | BacktrackedKey \<Rightarrow> added
         | AddedKeys \<Rightarrow> added
         | PendingConfirmation \<Rightarrow>
             if key event = ''Enter'' \<and> ctrl event \<and> alt event
             then r1\<lparr>registerSequence := butlast (registerSequence r1),
                     registerState := FinishedRegistering\<rparr>
             else if key event = ''Enter''
             then r1\<lparr>registerState := AddedKeys\<rparr>
             else if key event = ''Backspace''
             then r1\<lparr>registerSequence := butlast (registerSequence r1),
                     registerState := BacktrackedKey\<rparr>
             else r1\<lparr>registerState := PendingConfirmation\<rparr>
         | FinishedRegistering \<Rightarrow> RegisterMachine_advance (RegisterMachine_reset r1) event)"
  by pat_completeness auto
termination
  by (relation "measure (\<lambda>(r, e). if registerState r = FinishedRegistering then 1 else 0)")
     (auto simp: RegisterMachine_reset_def)

declare RegisterMachine_advance.simps [simp del]

definition presses :: "RegisterMachine \<Rightarrow> KeyPress list" where
  "presses r = registerSequence r"

fun RegisterMachine_advance_depth ::
  "nat \<Rightarrow> RegisterMachine \<Rightarrow> KeyPress \<Rightarrow> RegisterMachine option" where
  "RegisterMachine_advance_depth 0 r event = None"
| "RegisterMachine_advance_depth (Suc d) r event =
     (let r1 = r\<lparr>registerSequence := registerSequence r @ [event]\<rparr>;
          cl = classification event;
          added =
            (if cl = NoKey
             then r1\<lparr>registerSequence := butlast (registerSequence r1),
                     registerState := RetainedKeys\<rparr>
             else if cl = SpecialKey
             then r1\<lparr>registerState := PendingConfirmation\<rparr>
             else r1\<lparr>registerState := AddedKeys\<rparr>)
      in case registerState r1 of
           NoKeys \<Rightarrow>
             Some (if cl = NoKey
                   then r1\<lparr>registerSequence := butlast (registerSequence r1),
                           registerState := RetainedKeys\<rparr>
                   else if cl = SpecialKey
                   then r1\<lparr>registerState := PendingConfirmation\<rparr>
                   else r1\<lparr>registerState := FirstKey\<rparr>)
         | FirstKey \<Rightarrow> Some added
         | RetainedKeys \<Rightarrow> Some added
         | BacktrackedKey \<Rightarrow> Some added
         | AddedKeys \<Rightarrow> Some added
         | PendingConfirmation \<Rightarrow>
             Some (if key event = ''Enter'' \<and> ctrl event \<and> alt event
                   then r1\<lparr>registerSequence := butlast (registerSequence r1),
                           registerState := FinishedRegistering\<rparr>
                   else if key event = ''Enter''
                   then r1\<lparr>registerState := AddedKeys\<rparr>
                   else if key event = ''Backspace''
                   then r1\<lparr>registerSequence := butlast (registerSequence r1),
                           registerState := BacktrackedKey\<rparr>
                   else r1\<lparr>registerState := PendingConfirmation\<rparr>)
         | FinishedRegistering \<Rightarrow>
             RegisterMachine_advance_depth d (RegisterMachine_reset r1) event)"

text \<open>
  The presses fed one after the other, as the key-down events arrive, and the default
  keymaps of the plugin.
\<close>

definition feed :: "KeyMatcher \<Rightarrow> KeyPress list \<Rightarrow> KeyMatcher" where
  "feed m ps = foldl KeyMatcher_advance m ps"

definition defaultHotkeys :: "KeyMap list" where
  "defaultHotkeys =
     [KeyMap_new ''editor:focus-left'' [KeyPress_ctrl ''b'', KeyPress_just ''h''],
      KeyMap_new ''editor:focus-right'' [KeyPress_ctrl ''b'', KeyPress_just ''l''],
      KeyMap_new ''editor:focus-top'' [KeyPress_ctrl ''b'', KeyPress_just ''k''],
      KeyMap_new ''editor:focus-bottom'' [KeyPress_ctrl ''b'', KeyPress_just ''j''],
      KeyMap_new ''command-palette:open''
        [KeyPress_ctrl ''q'', KeyPress_just ''1'', KeyPress_just ''2'', KeyPress_just ''2''],
      KeyMap_new ''command-palette:open''
        [KeyPress_ctrl '' '', KeyPress_just ''p'', KeyPress_just ''a'', KeyPress_just ''l'',
         KeyPress_just ''l'', KeyPress_just ''e'', KeyPress_just ''t'', KeyPress_just ''t'',
         KeyPress_just ''e'']]"

section \<open>Well-formed tries\<close>

text \<open>
  The shape every node below the root has in a trie built by \<^verbatim>\<open>add\<close>: a node without
  children holds a keymap, a node with children holds \<^verbatim>\<open>null\<close>. The root may also be
  new, with no children and \<^verbatim>\<open>value\<close> still undefined, or hold the keymap of an empty
  sequence.
\<close>

inductive wf_node :: "'a TrieNode \<Rightarrow> bool" where
  leaf: "wf_node (TrieNode [] (Present x))"
| inner: "cs \<noteq> [] \<Longrightarrow> (\<forall>e \<in> set cs. wf_node (snd e)) \<Longrightarrow> wf_node (TrieNode cs Null)"

definition wf_root :: "'a TrieNode \<Rightarrow> bool" where
  "wf_root r = ((children r \<noteq> [] \<longrightarrow> val r = Null) \<and> (\<forall>e \<in> set (children r). wf_node (snd e)))"

text \<open>
  The three states that share the middle branch of \<^verbatim>\<open>KeyMatcher.advance\<close>: a match has
  started and has neither succeeded nor failed.
\<close>

definition continuing :: "KeyMatcher \<Rightarrow> bool" where
  "continuing m \<longleftrightarrow> currentState m = StartedMatch \<or> currentState m = RetainedMatch
     \<or> currentState m = ImprovedMatch"

section \<open>Adding to a trie\<close>

lemma wf_node_root: "wf_node n \<Longrightarrow> wf_root n"
  by (erule wf_node.cases) (simp_all add: wf_root_def)

lemma wf_node_val: "wf_node n \<Longrightarrow> val n \<noteq> Undefined"
  by (auto elim: wf_node.cases)

lemma wf_node_leaf: "wf_node n \<Longrightarrow> isLeaf n \<Longrightarrow> \<exists>x. val n = Present x"
  by (auto simp: isLeaf_def elim: wf_node.cases)

lemma wf_root_new: "wf_root TrieNode_new"
  by (simp add: wf_root_def TrieNode_new_def)

lemma Map_get_in: "Map_get es k = Some v \<Longrightarrow> (k, v) \<in> set es"
  by (induction es) (auto split: if_splits)

lemma Map_get_set: "Map_get (Map_set k v es) k' = (if k' = k then Some v else Map_get es k')"
  by (induction es) auto

lemma Map_set_same: "Map_get es k = Some v \<Longrightarrow> Map_set k v es = es"
  by (induction es) (auto split: if_splits)

lemma Map_set_entries: "e \<in> set (Map_set k v es) \<Longrightarrow> e = (k, v) \<or> e \<in> set es"
  by (induction es) (auto split: if_splits)

lemma Map_set_nonempty: "Map_set k v es \<noteq> []"
  by (cases es) (auto split: if_splits)

lemma wf_child: "wf_root n \<Longrightarrow> child n k = Some c \<Longrightarrow> wf_node c"
  by (force simp: wf_root_def child_def dest: Map_get_in)

lemma child_nonempty: "child n k = Some c \<Longrightarrow> children n \<noteq> []"
  by (auto simp: child_def)

lemma add_step:
  "Trie_add_from (p # ps) v n =
     (let c = (case child n (serialize p) of Some c \<Rightarrow> c | None \<Rightarrow> TrieNode_new);
          rc = Trie_add_from ps v c
      in (fst rc, TrieNode (Map_set (serialize p) (snd rc) (children n)) Null))"
  by (simp add: Let_def addChild_def)

declare Trie_add_from.simps(2) [simp del]

lemma wf_inner_set:
  assumes "\<forall>e \<in> set cs. wf_node (snd e)" and "wf_node c"
  shows "wf_node (TrieNode (Map_set k c cs) Null)"
proof (rule wf_node.inner)
  show "Map_set k c cs \<noteq> []" by (rule Map_set_nonempty)
  show "\<forall>e \<in> set (Map_set k c cs). wf_node (snd e)"
    using assms by (auto dest: Map_set_entries)
qed

lemma add_fresh:
  "fst (Trie_add_from ps v TrieNode_new) = Inr () \<and> wf_node (snd (Trie_add_from ps v TrieNode_new))"
proof (induction ps)
  case Nil
  show ?case by (simp add: TrieNode_new_def setValue_def wf_node.leaf)
next
  case (Cons p ps)
  have "child (TrieNode_new :: KeyMap TrieNode) (serialize p) = None"
    by (simp add: child_def TrieNode_new_def)
  moreover have "\<forall>e \<in> set (children (TrieNode_new :: KeyMap TrieNode)). wf_node (snd e)"
    by (simp add: TrieNode_new_def)
  ultimately show ?case using Cons
    by (simp add: add_step Let_def wf_inner_set)
qed

lemma add_wf_step:
  assumes n: "wf_root n"
    and rec: "\<And>d. wf_node d \<Longrightarrow> wf_node (snd (Trie_add_from ps v d))"
  shows "wf_node (snd (Trie_add_from (p # ps) v n))"
proof -
  define c where "c = (case child n (serialize p) of Some c \<Rightarrow> c | None \<Rightarrow> TrieNode_new)"
  have "wf_node (snd (Trie_add_from ps v c))"
  proof (cases "child n (serialize p)")
    case None
    then show ?thesis using add_fresh[of ps v] by (simp add: c_def)
  next
    case (Some d)
    with n have "wf_node d" by (rule wf_child)
    then show ?thesis using rec[of d] Some by (simp add: c_def)
  qed
  moreover from n have "\<forall>e \<in> set (children n). wf_node (snd e)" by (simp add: wf_root_def)
  ultimately show ?thesis
    unfolding add_step Let_def c_def[symmetric] by (simp add: wf_inner_set)
qed

lemma add_wf_node: "wf_node n \<Longrightarrow> wf_node (snd (Trie_add_from ps v n))"
proof (induction ps arbitrary: n)
  case Nil
  then show ?case by (auto dest: wf_node_val)
next
  case (Cons p ps)
  from wf_node_root[OF Cons.prems] Cons.IH show ?case by (rule add_wf_step)
qed

lemma add_wf_root: "wf_root n \<Longrightarrow> wf_root (snd (Trie_add_from ps v n))"
proof (cases ps)
  case Nil
  assume "wf_root n"
  with Nil show ?thesis by (auto simp: wf_root_def setValue_def)
next
  case (Cons p ps')
  assume "wf_root n"
  then have "wf_node (snd (Trie_add_from (p # ps') v n))"
    by (rule add_wf_step) (rule add_wf_node)
  with Cons show ?thesis by (simp add: wf_node_root)
qed

lemma add_failure_unchanged:
  assumes "wf_root n" and "fst (Trie_add_from ps v n) = Inl e"
  shows "snd (Trie_add_from ps v n) = n"
  using assms
proof (induction ps arbitrary: n)
  case Nil
  then show ?case by (simp split: if_splits)
next
  case (Cons p ps)
  show ?case
  proof (cases "child n (serialize p)")
    case None
    with Cons.prems(2) show ?thesis using add_fresh[of ps v] by (simp add: add_step Let_def)
  next
    case (Some d)
    with Cons.prems(1) have "wf_root d" by (intro wf_node_root) (rule wf_child)
    moreover from Cons.prems(2) Some have "fst (Trie_add_from ps v d) = Inl e"
      by (simp add: add_step Let_def)
    ultimately have "snd (Trie_add_from ps v d) = d" by (rule Cons.IH)
    moreover from Some have "Map_set (serialize p) d (children n) = children n"
      by (simp add: child_def Map_set_same)
    moreover from Some Cons.prems(1) have "val n = Null"
      by (auto simp: wf_root_def dest: child_nonempty)
    ultimately show ?thesis using Some by (cases n) (simp add: add_step Let_def)
  qed
qed

lemma add_val_defined: "val (snd (Trie_add_from ps v n)) \<noteq> Undefined"
  by (cases ps) (simp_all add: add_step Let_def setValue_def)

lemma child_after_add:
  "child (snd (Trie_add_from (p # ps) v n)) k =
     (if k = serialize p
      then Some (snd (Trie_add_from ps v
             (case child n (serialize p) of Some c \<Rightarrow> c | None \<Rightarrow> TrieNode_new)))
      else child n k)"
  by (simp add: add_step Let_def child_def Map_get_set)

lemma children_after_add_Nil: "children (snd (Trie_add_from [] v n)) = children n"
  by (simp add: setValue_def)

lemma walk_preserved:
  assumes "bestMatch_from n qs \<noteq> None"
  shows "bestMatch_from (snd (Trie_add_from ps v n)) qs \<noteq> None"
  using assms
proof (induction qs arbitrary: n ps)
  case Nil
  then show ?case by simp
next
  case (Cons q qs)
  then obtain c where c: "child n (serialize q) = Some c" and w: "bestMatch_from c qs \<noteq> None"
    by (auto split: option.splits)
  show ?case
  proof (cases ps)
    case Nil
    with c w show ?thesis by (simp add: child_def setValue_def)
  next
    case (Cons p ps')
    with c w Cons.IH[of c ps'] show ?thesis
      by (cases "serialize q = serialize p") (simp_all add: child_after_add)
  qed
qed

lemma walk_created:
  assumes "prefix (map serialize qs) (map serialize ps)"
  shows "bestMatch_from (snd (Trie_add_from ps v n)) qs \<noteq> None"
  using assms
proof (induction qs arbitrary: n ps)
  case Nil
  then show ?case by simp
next
  case (Cons q qs)
  then obtain p ps' where ps: "ps = p # ps'" and k: "serialize q = serialize p"
    and rest: "prefix (map serialize qs) (map serialize ps')"
    by (cases ps) auto
  from Cons.IH[OF rest] show ?case
    by (simp add: ps k child_after_add)
qed

lemma add_rejects_existing:
  assumes "bestMatch_from n ps = Some x" and "val x \<noteq> Undefined"
  shows "fst (Trie_add_from ps v n) = Inl DuplicateKeymap"
  using assms
proof (induction ps arbitrary: n)
  case Nil
  then show ?case by simp
next
  case (Cons p ps)
  then obtain c where c: "child n (serialize p) = Some c" and w: "bestMatch_from c ps = Some x"
    by (auto split: option.splits)
  with Cons.IH[OF w Cons.prems(2)] show ?case by (simp add: add_step Let_def)
qed

lemma walk_wf:
  assumes "wf_root n" and "bestMatch_from n qs = Some x" and "qs \<noteq> []"
  shows "wf_node x"
  using assms
proof (induction qs arbitrary: n)
  case Nil
  then show ?case by simp
next
  case (Cons q qs)
  then obtain c where c: "child n (serialize q) = Some c" and w: "bestMatch_from c qs = Some x"
    by (auto split: option.splits)
  from Cons.prems(1) c have wc: "wf_node c" by (rule wf_child)
  show ?case
  proof (cases qs)
    case Nil
    with w wc show ?thesis by simp
  next
    case (Cons a list)
    with Cons.IH[OF wf_node_root[OF wc] w] show ?thesis by simp
  qed
qed


lemma Trie_add_root:
  "root (snd (Trie_add k t)) = snd (Trie_add_from (sequence k) k (root t))"
  "fst (Trie_add k t) = fst (Trie_add_from (sequence k) k (root t))"
  by (simp_all add: Trie_add_def Let_def)

lemma addAll_Cons:
  "addAll (k # ks) t0 = (Inr (), t) \<longleftrightarrow>
     fst (Trie_add k t0) = Inr () \<and> addAll ks (snd (Trie_add k t0)) = (Inr (), t)"
  by (cases "Trie_add k t0") (auto split: sum.splits)

lemma addAll_wf:
  "addAll ks t0 = (Inr (), t) \<Longrightarrow> wf_root (root t0) \<Longrightarrow> wf_root (root t)"
proof (induction ks arbitrary: t0)
  case Nil
  then show ?case by simp
next
  case (Cons k ks)
  from Cons.prems(1) have "addAll ks (snd (Trie_add k t0)) = (Inr (), t)"
    by (simp only: addAll_Cons)
  moreover from Cons.prems(2) have "wf_root (root (snd (Trie_add k t0)))"
    by (simp add: Trie_add_root add_wf_root)
  ultimately show ?case by (rule Cons.IH)
qed

lemma addAll_walk_preserved:
  "addAll ks t0 = (Inr (), t) \<Longrightarrow> bestMatch_from (root t0) qs \<noteq> None \<Longrightarrow>
     bestMatch_from (root t) qs \<noteq> None"
proof (induction ks arbitrary: t0)
  case Nil
  then show ?case by simp
next
  case (Cons k ks)
  from Cons.prems(1) have "addAll ks (snd (Trie_add k t0)) = (Inr (), t)"
    by (simp only: addAll_Cons)
  moreover from Cons.prems(2) have "bestMatch_from (root (snd (Trie_add k t0))) qs \<noteq> None"
    by (simp add: Trie_add_root walk_preserved)
  ultimately show ?case by (rule Cons.IH)
qed

lemma addAll_walk_created:
  "addAll ks t0 = (Inr (), t) \<Longrightarrow> k \<in> set ks \<Longrightarrow>
     prefix (map serialize qs) (map serialize (sequence k)) \<Longrightarrow>
     bestMatch_from (root t) qs \<noteq> None"
proof (induction ks arbitrary: t0)
  case Nil
  then show ?case by simp
next
  case (Cons k' ks)
  from Cons.prems(1) have rest: "addAll ks (snd (Trie_add k' t0)) = (Inr (), t)"
    by (simp only: addAll_Cons)
  show ?case
  proof (cases "k = k'")
    case True
    with Cons.prems(3) have "bestMatch_from (root (snd (Trie_add k' t0))) qs \<noteq> None"
      by (simp add: Trie_add_root walk_created)
    with rest show ?thesis by (rule addAll_walk_preserved)
  next
    case False
    with Cons.prems(2) have "k \<in> set ks" by simp
    with rest show ?thesis using Cons.prems(3) by (rule Cons.IH)
  qed
qed

lemma addAll_root_val:
  "addAll ks t0 = (Inr (), t) \<Longrightarrow> ks \<noteq> [] \<or> val (root t0) \<noteq> Undefined \<Longrightarrow>
     val (root t) \<noteq> Undefined"
proof (induction ks arbitrary: t0)
  case Nil
  then show ?case by simp
next
  case (Cons k ks)
  from Cons.prems(1) have "addAll ks (snd (Trie_add k t0)) = (Inr (), t)"
    by (simp only: addAll_Cons)
  moreover have "val (root (snd (Trie_add k t0))) \<noteq> Undefined"
    by (simp add: Trie_add_root add_val_defined)
  ultimately show ?case using Cons.IH[of "snd (Trie_add k t0)"] by blast
qed

lemma Trie_new_wf: "wf_root (root Trie_new)"
  by (simp add: Trie_new_def wf_root_new)

lemma walk_by_keys:
  "map serialize qs = map serialize ps \<Longrightarrow> bestMatch_from n qs = bestMatch_from n ps"
proof (induction qs arbitrary: n ps)
  case Nil
  then show ?case by simp
next
  case (Cons q qs)
  then obtain p ps' where "ps = p # ps'" "serialize q = serialize p"
    "map serialize qs = map serialize ps'"
    by (cases ps) auto
  with Cons.IH[of ps'] show ?case by (simp split: option.splits)
qed

lemma stored_after_add:
  assumes "wf_root n" and "fst (Trie_add_from ps v n) = Inr ()"
  shows "bestMatch_from (snd (Trie_add_from ps v n)) ps = Some (TrieNode [] (Present v))"
  using assms
proof (induction ps arbitrary: n)
  case Nil
  then show ?case by (cases n) (auto simp: wf_root_def setValue_def split: if_splits)
next
  case (Cons p ps)
  define c where "c = (case child n (serialize p) of Some c \<Rightarrow> c | None \<Rightarrow> TrieNode_new)"
  from Cons.prems(1) have "wf_root c"
    by (auto simp: c_def wf_root_new split: option.splits intro: wf_node_root wf_child)
  moreover from Cons.prems(2) have "fst (Trie_add_from ps v c) = Inr ()"
    by (simp add: add_step Let_def c_def)
  ultimately have "bestMatch_from (snd (Trie_add_from ps v c)) ps = Some (TrieNode [] (Present v))"
    by (rule Cons.IH)
  then show ?case by (simp add: child_after_add c_def)
qed

lemma walk_untouched:
  assumes "bestMatch_from n qs = Some x"
    and "\<not> prefix (map serialize qs) (map serialize ps)"
  shows "bestMatch_from (snd (Trie_add_from ps v n)) qs = Some x"
  using assms
proof (induction qs arbitrary: n ps)
  case Nil
  then show ?case by simp
next
  case (Cons q qs)
  then obtain c where c: "child n (serialize q) = Some c" and w: "bestMatch_from c qs = Some x"
    by (auto split: option.splits)
  show ?case
  proof (cases ps)
    case Nil
    with c w show ?thesis by (simp add: child_def setValue_def)
  next
    case (Cons p ps')
    show ?thesis
    proof (cases "serialize q = serialize p")
      case True
      with Cons.prems(2) Cons have "\<not> prefix (map serialize qs) (map serialize ps')" by simp
      with w have "bestMatch_from (snd (Trie_add_from ps' v c)) qs = Some x" by (rule Cons.IH)
      with c True Cons show ?thesis by (simp add: child_after_add)
    next
      case False
      with c w Cons show ?thesis by (simp add: child_after_add)
    qed
  qed
qed

lemma addAll_keeps:
  assumes "addAll ks t0 = (Inr (), t)"
    and "bestMatch_from (root t0) qs = Some x" and "val x \<noteq> Undefined"
    and "\<forall>k' \<in> set ks. \<not> strict_prefix (map serialize qs) (map serialize (sequence k'))"
  shows "bestMatch_from (root t) qs = Some x"
  using assms
proof (induction ks arbitrary: t0)
  case Nil
  then show ?case by simp
next
  case (Cons k' ks)
  from Cons.prems(1) have ok: "fst (Trie_add k' t0) = Inr ()"
    and rest: "addAll ks (snd (Trie_add k' t0)) = (Inr (), t)"
    by (simp_all only: addAll_Cons)
  have "map serialize qs \<noteq> map serialize (sequence k')"
  proof
    assume "map serialize qs = map serialize (sequence k')"
    then have "bestMatch_from (root t0) (sequence k') = Some x"
      using Cons.prems(2) walk_by_keys[of qs "sequence k'" "root t0"] by simp
    then have "fst (Trie_add_from (sequence k') k' (root t0)) = Inl DuplicateKeymap"
      using Cons.prems(3) by (rule add_rejects_existing)
    with ok show False by (simp add: Trie_add_root)
  qed
  with Cons.prems(4) have "\<not> prefix (map serialize qs) (map serialize (sequence k'))"
    by (auto simp: strict_prefix_def)
  with Cons.prems(2) have "bestMatch_from (root (snd (Trie_add k' t0))) qs = Some x"
    by (simp add: Trie_add_root walk_untouched)
  moreover from Cons.prems(4)
  have "\<forall>k' \<in> set ks. \<not> strict_prefix (map serialize qs) (map serialize (sequence k'))"
    by simp
  ultimately show ?case using rest Cons.prems(3) Cons.IH[of "snd (Trie_add k' t0)"] by blast
qed

lemma loaded_keymap_stored:
  assumes "addAll ks t0 = (Inr (), t)" and "wf_root (root t0)" and "k \<in> set ks"
    and "\<forall>k' \<in> set ks. \<not> strict_prefix (map serialize (sequence k)) (map serialize (sequence k'))"
  shows "bestMatch t (sequence k) = Some (TrieNode [] (Present k))"
  using assms
proof (induction ks arbitrary: t0)
  case Nil
  then show ?case by simp
next
  case (Cons k' ks)
  from Cons.prems(1) have ok: "fst (Trie_add k' t0) = Inr ()"
    and rest: "addAll ks (snd (Trie_add k' t0)) = (Inr (), t)"
    by (simp_all only: addAll_Cons)
  from Cons.prems(2) have wf: "wf_root (root (snd (Trie_add k' t0)))"
    by (simp add: Trie_add_root add_wf_root)
  show ?case
  proof (cases "k = k'")
    case True
    from Cons.prems(2) ok
    have "bestMatch_from (root (snd (Trie_add k t0))) (sequence k) = Some (TrieNode [] (Present k))"
      by (simp add: True Trie_add_root stored_after_add)
    moreover from Cons.prems(4)
    have "\<forall>k' \<in> set ks. \<not> strict_prefix (map serialize (sequence k))
        (map serialize (sequence k'))"
      by simp
    moreover have "val (TrieNode [] (Present k)) \<noteq> Undefined" by simp
    ultimately have "bestMatch_from (root t) (sequence k) = Some (TrieNode [] (Present k))"
      using rest True addAll_keeps[of ks "snd (Trie_add k t0)" t "sequence k"
          "TrieNode [] (Present k)"]
      by blast
    then show ?thesis by (simp add: bestMatch_def)
  next
    case False
    with Cons.prems(3) have "k \<in> set ks" by simp
    moreover from Cons.prems(4)
    have "\<forall>k' \<in> set ks. \<not> strict_prefix (map serialize (sequence k))
        (map serialize (sequence k'))"
      by simp
    ultimately show ?thesis using rest wf Cons.IH[of "snd (Trie_add k' t0)"] by blast
  qed
qed

section \<open>Unfolding one call of the matcher\<close>

lemma reset_eq_new: "KeyMatcher_reset m = KeyMatcher_new (trie m)"
  by (cases m) (simp add: KeyMatcher_reset_def KeyMatcher_new_def)

lemma state_cases:
  obtains (start) "currentState m = NoMatch"
  | (continue) "currentState m = StartedMatch \<or> currentState m = RetainedMatch
       \<or> currentState m = ImprovedMatch"
  | (terminal) "currentState m = SuccessMatch \<or> currentState m = InvalidMatch"
  by (cases "currentState m") auto

lemma advance_start:
  assumes "currentState m = NoMatch"
  shows "KeyMatcher_advance m c =
    (case bestMatch (trie m) (currentSequence m @ [c]) of
       None \<Rightarrow> KeyMatcher_new (trie m)
     | Some n \<Rightarrow> m\<lparr>currentSequence := currentSequence m @ [c], currentMatches := leafValues n,
                   currentState := (if isLeaf n then SuccessMatch else StartedMatch)\<rparr>)"
  using assms
  by (subst KeyMatcher_advance.simps)
     (simp add: Let_def classify_def reset_eq_new KeyMatcher_new_def split: option.split)

lemma advance_continue:
  assumes "currentState m = StartedMatch \<or> currentState m = RetainedMatch
     \<or> currentState m = ImprovedMatch"
  shows "KeyMatcher_advance m c =
    (let bm = bestMatch (trie m) (currentSequence m @ [c]);
         ms = (case bm of Some n \<Rightarrow> leafValues n | None \<Rightarrow> [])
     in if classification c = NoKey
        then m\<lparr>currentMatches := ms, currentState := RetainedMatch\<rparr>
        else m\<lparr>currentSequence := currentSequence m @ [c], currentMatches := ms,
               currentState := (case bm of None \<Rightarrow> InvalidMatch
                                | Some n \<Rightarrow> if isLeaf n then SuccessMatch else ImprovedMatch)\<rparr>)"
  using assms
  by (subst KeyMatcher_advance.simps, elim disjE)
     (simp_all add: Let_def classify_def split: option.split)

lemma advance_terminal:
  assumes "currentState m = SuccessMatch \<or> currentState m = InvalidMatch"
  shows "KeyMatcher_advance m c = KeyMatcher_advance (KeyMatcher_new (trie m)) c"
  using assms
  by (subst KeyMatcher_advance.simps, elim disjE)
     (simp_all add: Let_def reset_eq_new)

lemma feed_snoc: "feed m (ps @ [p]) = KeyMatcher_advance (feed m ps) p"
  by (simp add: feed_def)

lemma advance_NoMatch_empty:
  "currentState (KeyMatcher_advance m c) = NoMatch \<Longrightarrow>
     currentSequence (KeyMatcher_advance m c) = [] \<and> currentMatches (KeyMatcher_advance m c) = []"
proof (cases m rule: state_cases)
  case start
  then show "currentState (KeyMatcher_advance m c) = NoMatch \<Longrightarrow> ?thesis"
    by (auto simp: advance_start KeyMatcher_new_def split: option.splits if_splits)
next
  case continue
  then show "currentState (KeyMatcher_advance m c) = NoMatch \<Longrightarrow> ?thesis"
    by (auto simp: advance_continue Let_def split: option.splits if_splits)
next
  case terminal
  have "currentState (KeyMatcher_new (trie m)) = NoMatch" by (simp add: KeyMatcher_new_def)
  then show "currentState (KeyMatcher_advance m c) = NoMatch \<Longrightarrow> ?thesis"
    unfolding advance_terminal[OF terminal]
    by (auto simp: advance_start KeyMatcher_new_def split: option.splits if_splits)
qed

lemma matcher_depth_1:
  assumes "currentState m \<noteq> SuccessMatch" "currentState m \<noteq> InvalidMatch"
  shows "KeyMatcher_advance_depth (Suc d) m c = Some (KeyMatcher_advance m c)"
proof (cases m rule: state_cases)
  case start
  then show ?thesis
    by (simp add: advance_start Let_def classify_def reset_eq_new KeyMatcher_new_def
             split: option.split)
next
  case continue
  then show ?thesis
    by (elim disjE) (simp_all add: advance_continue Let_def classify_def split: option.split)
next
  case terminal
  with assms show ?thesis by simp
qed

lemma matcher_depth_2:
  "KeyMatcher_advance_depth (Suc (Suc d)) m c = Some (KeyMatcher_advance m c)"
proof (cases "currentState m = SuccessMatch \<or> currentState m = InvalidMatch")
  case True
  have "KeyMatcher_advance_depth (Suc (Suc d)) m c =
        KeyMatcher_advance_depth (Suc d) (KeyMatcher_new (trie m)) c"
    using True
    by (elim disjE)
       (simp_all add: Let_def reset_eq_new del: KeyMatcher_advance_depth.simps
                 add: KeyMatcher_advance_depth.simps(2)[of "Suc d"])
  also have "\<dots> = Some (KeyMatcher_advance (KeyMatcher_new (trie m)) c)"
    by (rule matcher_depth_1) (simp_all add: KeyMatcher_new_def)
  finally show ?thesis by (simp only: advance_terminal[OF True])
next
  case False
  then show ?thesis by (intro matcher_depth_1) simp_all
qed

lemma matcher_depth_1_None:
  "KeyMatcher_advance_depth (Suc 0) m c = None \<longleftrightarrow>
     currentState m = SuccessMatch \<or> currentState m = InvalidMatch"
  by (cases "currentState m") (simp_all add: Let_def)

section \<open>The matcher over a well-formed trie\<close>

lemma leafValues_leaf: "isLeaf n \<Longrightarrow> leafValues n = [val n]"
  by (simp add: leafValues_def)

lemma trie_advance: "trie (KeyMatcher_advance m c) = trie m"
proof (cases m rule: state_cases)
  case start
  then show ?thesis by (simp add: advance_start KeyMatcher_new_def split: option.split)
next
  case continue
  then show ?thesis by (simp add: advance_continue Let_def)
next
  case terminal
  have "currentState (KeyMatcher_new (trie m)) = NoMatch" by (simp add: KeyMatcher_new_def)
  then show ?thesis
    by (simp add: advance_terminal[OF terminal] advance_start KeyMatcher_new_def split: option.split)
qed

lemma trie_feed: "trie (feed m ps) = trie m"
  by (induction ps rule: rev_induct) (simp_all add: feed_snoc trie_advance, simp add: feed_def)

lemma bestMatch_leaf_value:
  assumes "wf_root (root t)" and "bestMatch t (s @ [c]) = Some n" and "isLeaf n"
  shows "\<exists>k. leafValues n = [Present k]"
proof -
  from assms(1,2) have "wf_node n" unfolding bestMatch_def by (rule walk_wf) simp
  with assms(3) show ?thesis by (auto simp: leafValues_leaf dest: wf_node_leaf)
qed

lemma success_single_start:
  assumes "wf_root (root (trie m))" and "currentState m = NoMatch"
    and "currentState (KeyMatcher_advance m c) = SuccessMatch"
  shows "\<exists>k. currentMatches (KeyMatcher_advance m c) = [Present k]"
  using assms bestMatch_leaf_value[of "trie m" "currentSequence m" c]
  by (auto simp: advance_start KeyMatcher_new_def split: option.splits if_splits)

lemma success_single:
  assumes wf: "wf_root (root (trie m))"
    and s: "currentState (KeyMatcher_advance m c) = SuccessMatch"
  shows "\<exists>k. currentMatches (KeyMatcher_advance m c) = [Present k]"
proof (cases m rule: state_cases)
  case start
  with wf s show ?thesis by (intro success_single_start)
next
  case continue
  with wf s bestMatch_leaf_value[of "trie m" "currentSequence m" c] show ?thesis
    by (auto simp: advance_continue Let_def split: option.splits if_splits)
next
  case terminal
  have "wf_root (root (trie (KeyMatcher_new (trie m))))"
    "currentState (KeyMatcher_new (trie m)) = NoMatch"
    using wf by (simp_all add: KeyMatcher_new_def)
  then show ?thesis using s unfolding advance_terminal[OF terminal]
    by (rule success_single_start)
qed

lemma reachable_success_single:
  assumes "wf_root (root t)" and "currentState (feed (KeyMatcher_new t) ps) = SuccessMatch"
  shows "\<exists>k. currentMatches (feed (KeyMatcher_new t) ps) = [Present k]"
proof (cases ps rule: rev_cases)
  case Nil
  with assms(2) show ?thesis by (simp add: feed_def KeyMatcher_new_def)
next
  case (snoc qs q)
  have "trie (feed (KeyMatcher_new t) qs) = t" by (simp add: trie_feed KeyMatcher_new_def)
  with assms snoc show ?thesis
    using success_single[of "feed (KeyMatcher_new t) qs" q] by (simp add: feed_snoc)
qed

lemma matches_follow_buffer:
  assumes "currentState (KeyMatcher_advance m c) \<noteq> NoMatch"
    and "currentState (KeyMatcher_advance m c) \<noteq> RetainedMatch"
  shows "currentMatches (KeyMatcher_advance m c) =
     (case bestMatch (trie (KeyMatcher_advance m c)) (currentSequence (KeyMatcher_advance m c)) of
        None \<Rightarrow> [] | Some n \<Rightarrow> leafValues n)"
proof (cases m rule: state_cases)
  case start
  with assms show ?thesis
    by (auto simp: advance_start KeyMatcher_new_def split: option.splits)
next
  case continue
  with assms show ?thesis
    by (auto simp: advance_continue Let_def split: option.splits if_splits)
next
  case terminal
  have "currentState (KeyMatcher_new (trie m)) = NoMatch" by (simp add: KeyMatcher_new_def)
  with assms show ?thesis unfolding advance_terminal[OF terminal]
    by (auto simp: advance_start KeyMatcher_new_def split: option.splits)
qed

lemma bestMatch_from_append:
  "bestMatch_from r (xs @ ys) =
     (case bestMatch_from r xs of None \<Rightarrow> None | Some n \<Rightarrow> bestMatch_from n ys)"
  by (induction xs arbitrary: r) (auto split: option.splits)

lemma walk_on_not_leaf: "bestMatch_from n (y # ys) = Some x \<Longrightarrow> \<not> isLeaf n"
  by (auto simp: isLeaf_def child_def split: option.splits)

lemma feed_Nil: "feed m [] = m"
  by (simp add: feed_def)

lemma feed_Cons: "feed m (p # ps) = feed (KeyMatcher_advance m p) ps"
  by (simp add: feed_def)

lemma feed_append: "feed m (ps @ qs) = feed (feed m ps) qs"
  by (simp add: feed_def)

lemma noise_step:
  assumes "continuing m" and "classification b = NoKey"
  shows "continuing (KeyMatcher_advance m b) \<and> trie (KeyMatcher_advance m b) = trie m
     \<and> currentSequence (KeyMatcher_advance m b) = currentSequence m"
  using assms by (simp add: continuing_def advance_continue Let_def)

lemma noise_feed:
  assumes "continuing m" and "\<forall>b \<in> set bs. classification b = NoKey"
  shows "continuing (feed m bs) \<and> trie (feed m bs) = trie m
     \<and> currentSequence (feed m bs) = currentSequence m"
  using assms
proof (induction bs arbitrary: m)
  case Nil
  then show ?case by (simp add: feed_Nil)
next
  case (Cons b bs)
  from Cons.prems have s: "continuing (KeyMatcher_advance m b) \<and>
      trie (KeyMatcher_advance m b) = trie m \<and>
      currentSequence (KeyMatcher_advance m b) = currentSequence m"
    by (intro noise_step) simp_all
  with Cons.IH[of "KeyMatcher_advance m b"] Cons.prems(2) show ?case
    by (simp add: feed_Cons)
qed

lemma chord_step:
  assumes "continuing m" and "classification x \<noteq> NoKey"
    and "bestMatch (trie m) (currentSequence m @ [x]) = Some n"
  shows "KeyMatcher_advance m x =
     \<lparr>trie = trie m, currentState = (if isLeaf n then SuccessMatch else ImprovedMatch),
      currentSequence = currentSequence m @ [x], currentMatches = leafValues n\<rparr>"
  using assms by (cases m) (simp add: continuing_def advance_continue Let_def)

lemma noisy_rest:
  assumes "continuing m"
    and "bestMatch (trie m) (currentSequence m @ cs) = Some n" and "isLeaf n"
    and "cs \<noteq> []"
    and "\<forall>x \<in> set cs. classification x \<noteq> NoKey"
    and "length noise = length cs"
    and "\<forall>bs \<in> set noise. \<forall>b \<in> set bs. classification b = NoKey"
  shows "feed m (concat (map2 (\<lambda>bs x. bs @ [x]) noise cs)) =
     \<lparr>trie = trie m, currentState = SuccessMatch,
      currentSequence = currentSequence m @ cs, currentMatches = leafValues n\<rparr>"
  using assms
proof (induction cs arbitrary: m noise)
  case Nil
  then show ?case by simp
next
  case (Cons x cs)
  from Cons.prems(6) obtain bs noise' where noise: "noise = bs # noise'"
    and len: "length noise' = length cs"
    by (cases noise) auto
  define m1 where "m1 = feed m bs"
  from Cons.prems(1,7) have m1: "continuing m1" "trie m1 = trie m"
    "currentSequence m1 = currentSequence m"
    using noise_feed[of m bs] by (simp_all add: m1_def noise)
  from Cons.prems(2) obtain n1 where
    n1: "bestMatch (trie m) (currentSequence m @ [x]) = Some n1"
    and rest: "bestMatch_from n1 cs = Some n"
    by (auto simp: bestMatch_def bestMatch_from_append split: option.splits)
  define m2 where "m2 = KeyMatcher_advance m1 x"
  from m1 n1 Cons.prems(5) have m2: "m2 =
     \<lparr>trie = trie m, currentState = (if isLeaf n1 then SuccessMatch else ImprovedMatch),
      currentSequence = currentSequence m @ [x], currentMatches = leafValues n1\<rparr>"
    unfolding m2_def using chord_step[of m1 x n1] by simp
  have feed: "feed m (concat (map2 (\<lambda>bs x. bs @ [x]) noise (x # cs))) =
      feed m2 (concat (map2 (\<lambda>bs x. bs @ [x]) noise' cs))"
    by (simp add: noise feed_append feed_Cons m1_def m2_def)
  show ?case
  proof (cases cs)
    case Nil
    with rest have "n1 = n" by simp
    with Nil len Cons.prems(3) show ?thesis
      unfolding feed by (simp add: m2 feed_Nil)
  next
    case (Cons y ys)
    with rest have "\<not> isLeaf n1" using walk_on_not_leaf[of n1 y ys n] by blast
    with m2 have c2: "continuing m2" and t2: "trie m2 = trie m"
      and s2: "currentSequence m2 = currentSequence m @ [x]"
      by (simp_all add: continuing_def)
    from Cons.prems(2) have "bestMatch (trie m2) (currentSequence m2 @ cs) = Some n"
      by (simp add: t2 s2)
    with c2 have "feed m2 (concat (map2 (\<lambda>bs x. bs @ [x]) noise' cs)) =
       \<lparr>trie = trie m2, currentState = SuccessMatch,
        currentSequence = currentSequence m2 @ cs, currentMatches = leafValues n\<rparr>"
      using Cons.prems(3,5,7) len Cons by (intro Cons.IH) (simp_all add: noise)
    then show ?thesis unfolding feed by (simp add: t2 s2)
  qed
qed

lemma noisy_sequence:
  assumes "bestMatch t (c # cs) = Some n" and "isLeaf n"
    and "\<forall>x \<in> set cs. classification x \<noteq> NoKey"
    and "length noise = length cs"
    and "\<forall>bs \<in> set noise. \<forall>b \<in> set bs. classification b = NoKey"
  shows "feed (KeyMatcher_new t) (c # concat (map2 (\<lambda>bs x. bs @ [x]) noise cs)) =
     \<lparr>trie = t, currentState = SuccessMatch,
      currentSequence = c # cs, currentMatches = leafValues n\<rparr>"
proof -
  from assms(1) obtain n1 where n1: "bestMatch t [c] = Some n1"
    and rest: "bestMatch_from n1 cs = Some n"
    by (auto simp: bestMatch_def split: option.splits)
  define m1 where "m1 = KeyMatcher_advance (KeyMatcher_new t) c"
  from n1 have m1: "m1 = \<lparr>trie = t,
      currentState = (if isLeaf n1 then SuccessMatch else StartedMatch),
      currentSequence = [c], currentMatches = leafValues n1\<rparr>"
    by (simp add: m1_def advance_start KeyMatcher_new_def)
  show ?thesis
  proof (cases cs)
    case Nil
    with rest have "n1 = n" by simp
    with Nil assms(2,4) show ?thesis
      by (simp add: feed_Cons feed_Nil m1_def[symmetric] m1)
  next
    case (Cons y ys)
    with rest have "\<not> isLeaf n1" using walk_on_not_leaf[of n1 y ys n] by blast
    with m1 have "continuing m1" "trie m1 = t" "currentSequence m1 = [c]"
      by (simp_all add: continuing_def)
    with assms Cons have "feed m1 (concat (map2 (\<lambda>bs x. bs @ [x]) noise cs)) =
       \<lparr>trie = trie m1, currentState = SuccessMatch,
        currentSequence = currentSequence m1 @ cs, currentMatches = leafValues n\<rparr>"
      by (intro noisy_rest) simp_all
    with \<open>trie m1 = t\<close> \<open>currentSequence m1 = [c]\<close> show ?thesis
      by (simp add: feed_Cons m1_def[symmetric])
  qed
qed

lemma no_noise: "concat (map2 (\<lambda>bs x. bs @ [x]) (replicate (length cs) []) cs) = cs"
  by (induction cs) simp_all

section \<open>Unfolding one call of the register machine\<close>

lemma register_reset_eq_new: "RegisterMachine_reset r = RegisterMachine_new"
  by (cases r) (simp add: RegisterMachine_reset_def RegisterMachine_new_def)

lemma register_pending:
  assumes "registerState r = PendingConfirmation"
  shows "RegisterMachine_advance r c =
    (if key c = ''Enter'' \<and> ctrl c \<and> alt c
     then r\<lparr>registerState := FinishedRegistering\<rparr>
     else if key c = ''Enter''
     then r\<lparr>registerSequence := registerSequence r @ [c], registerState := AddedKeys\<rparr>
     else if key c = ''Backspace''
     then r\<lparr>registerState := BacktrackedKey\<rparr>
     else r\<lparr>registerSequence := registerSequence r @ [c],
            registerState := PendingConfirmation\<rparr>)"
  using assms by (subst RegisterMachine_advance.simps) (simp add: Let_def)

lemma register_finished:
  assumes "registerState r = FinishedRegistering"
  shows "RegisterMachine_advance r c = RegisterMachine_advance RegisterMachine_new c"
  using assms by (subst RegisterMachine_advance.simps) (simp add: Let_def register_reset_eq_new)

lemma register_depth_1:
  assumes "registerState r \<noteq> FinishedRegistering"
  shows "RegisterMachine_advance_depth (Suc d) r c = Some (RegisterMachine_advance r c)"
  using assms
  by (subst RegisterMachine_advance.simps, cases "registerState r") (simp_all add: Let_def)

lemma register_depth_2:
  "RegisterMachine_advance_depth (Suc (Suc d)) r c = Some (RegisterMachine_advance r c)"
proof (cases "registerState r = FinishedRegistering")
  case True
  have "RegisterMachine_advance_depth (Suc (Suc d)) r c =
        RegisterMachine_advance_depth (Suc d) RegisterMachine_new c"
    using True
    by (simp add: Let_def register_reset_eq_new del: RegisterMachine_advance_depth.simps
             add: RegisterMachine_advance_depth.simps(2)[of "Suc d"])
  also have "\<dots> = Some (RegisterMachine_advance RegisterMachine_new c)"
    by (rule register_depth_1) (simp add: RegisterMachine_new_def)
  finally show ?thesis by (simp only: register_finished[OF True])
next
  case False
  then show ?thesis by (rule register_depth_1)
qed

lemma register_depth_1_None:
  "RegisterMachine_advance_depth (Suc 0) r e = None \<longleftrightarrow>
     registerState r = FinishedRegistering"
  by (cases "registerState r") (simp_all add: Let_def)

section \<open>Serialization of a key press\<close>

lemma marker_peel:
  assumes "\<not> prefix mk x1" "\<not> prefix mk x2"
    and "(if b1 then mk else []) @ x1 = (if b2 then mk else []) @ x2"
  shows "b1 = b2 \<and> x1 = x2"
  using assms by (cases b1; cases b2) (auto simp: prefix_def)

lemma serialize_inj_on_plain_keys:
  assumes k1: "\<forall>mk \<in> {metaMarker, ctrlMarker, altMarker, shiftMarker}. \<not> prefix mk (key c1)"
    and k2: "\<forall>mk \<in> {metaMarker, ctrlMarker, altMarker, shiftMarker}. \<not> prefix mk (key c2)"
    and eq: "serialize c1 = serialize c2"
  shows "c1 = c2"
proof -
  define s where "s c = (if shift c then shiftMarker else []) @ key c" for c :: KeyPress
  define a where "a c = (if alt c then altMarker else []) @ s c" for c :: KeyPress
  define t where "t c = (if ctrl c then ctrlMarker else []) @ a c" for c :: KeyPress
  have ser: "serialize c = (if meta c then metaMarker else []) @ t c" for c
    by (simp add: serialize_def repr_def Let_def t_def a_def s_def)
  have ns: "\<not> prefix altMarker (s c) \<and> \<not> prefix ctrlMarker (s c) \<and> \<not> prefix metaMarker (s c)"
    if "\<forall>mk \<in> {metaMarker, ctrlMarker, altMarker, shiftMarker}. \<not> prefix mk (key c)" for c
    using that by (simp add: s_def metaMarker_def ctrlMarker_def altMarker_def shiftMarker_def)
  have na: "\<not> prefix ctrlMarker (a c) \<and> \<not> prefix metaMarker (a c)"
    if "\<forall>mk \<in> {metaMarker, ctrlMarker, altMarker, shiftMarker}. \<not> prefix mk (key c)" for c
    using ns[OF that] by (simp add: a_def metaMarker_def ctrlMarker_def altMarker_def)
  have nt: "\<not> prefix metaMarker (t c)"
    if "\<forall>mk \<in> {metaMarker, ctrlMarker, altMarker, shiftMarker}. \<not> prefix mk (key c)" for c
    using na[OF that] by (simp add: t_def metaMarker_def ctrlMarker_def)
  from eq have "(if meta c1 then metaMarker else []) @ t c1 =
      (if meta c2 then metaMarker else []) @ t c2"
    by (simp only: ser)
  with nt[OF k1] nt[OF k2] have m: "meta c1 = meta c2" and "t c1 = t c2"
    using marker_peel by blast+
  then have "(if ctrl c1 then ctrlMarker else []) @ a c1 =
      (if ctrl c2 then ctrlMarker else []) @ a c2"
    by (simp only: t_def)
  with na[OF k1] na[OF k2] have c: "ctrl c1 = ctrl c2" and "a c1 = a c2"
    using marker_peel by blast+
  then have "(if alt c1 then altMarker else []) @ s c1 =
      (if alt c2 then altMarker else []) @ s c2"
    by (simp only: a_def)
  with ns[OF k1] ns[OF k2] have al: "alt c1 = alt c2" and "s c1 = s c2"
    using marker_peel by blast+
  then have "(if shift c1 then shiftMarker else []) @ key c1 =
      (if shift c2 then shiftMarker else []) @ key c2"
    by (simp only: s_def)
  with k1 k2 have sh: "shift c1 = shift c2" and k: "key c1 = key c2"
    using marker_peel[of shiftMarker "key c1" "key c2" "shift c1" "shift c2"] by simp_all
  from m c al sh k show ?thesis by simp
qed

section \<open>The claims\<close>

text \<open>
  C1, as stated, fails: a keymap whose sequence extends one already in the trie is added
  without an error, and \<^verbatim>\<open>addChild\<close> sets the value of the node of the shorter keymap
  to \<^verbatim>\<open>null\<close>, so that keymap is gone.
\<close>

theorem add_overwrites_shorter:
  "fst (addAll [KeyMap_new ''A'' [KeyPress_just ''a'']] Trie_new) = Inr () \<and>
   prefix [KeyPress_just ''a''] [KeyPress_just ''a'', KeyPress_just ''b''] \<and>
   [KeyPress_just ''a''] \<noteq> [KeyPress_just ''a'', KeyPress_just ''b''] \<and>
   leafValues (root (snd (addAll [KeyMap_new ''A'' [KeyPress_just ''a'']] Trie_new))) =
     [Present (KeyMap_new ''A'' [KeyPress_just ''a''])] \<and>
   fst (Trie_add (KeyMap_new ''B'' [KeyPress_just ''a'', KeyPress_just ''b''])
     (snd (addAll [KeyMap_new ''A'' [KeyPress_just ''a'']] Trie_new))) = Inr () \<and>
   leafValues (root (snd (Trie_add (KeyMap_new ''B'' [KeyPress_just ''a'', KeyPress_just ''b''])
     (snd (addAll [KeyMap_new ''A'' [KeyPress_just ''a'']] Trie_new))))) =
     [Present (KeyMap_new ''B'' [KeyPress_just ''a'', KeyPress_just ''b''])] \<and>
   map_option val (bestMatch (snd (Trie_add (KeyMap_new ''B'' [KeyPress_just ''a'', KeyPress_just ''b''])
     (snd (addAll [KeyMap_new ''A'' [KeyPress_just ''a'']] Trie_new)))) [KeyPress_just ''a'']) =
     Some Null"
  by code_simp

text \<open>
  C1, amended. In a trie built by successful calls of \<^verbatim>\<open>add\<close>, adding a keymap whose
  serialized sequence equals, or is a prefix of, the serialized sequence of a keymap
  added before fails with the duplicate error and leaves the trie as it was.
\<close>

theorem add_rejects_duplicate_or_prefix:
  assumes built: "addAll ks Trie_new = (Inr (), t)"
    and k: "k \<in> set ks"
    and pre: "prefix (map serialize (sequence b)) (map serialize (sequence k))"
  shows "Trie_add b t = (Inl DuplicateKeymap, t)"
proof -
  from built have wf: "wf_root (root t)" by (rule addAll_wf) (rule Trie_new_wf)
  from built k pre obtain x where x: "bestMatch_from (root t) (sequence b) = Some x"
    using addAll_walk_created by blast
  have "val x \<noteq> Undefined"
  proof (cases "sequence b = []")
    case True
    with x have "x = root t" by simp
    moreover from k have "ks \<noteq> []" by auto
    ultimately show ?thesis using addAll_root_val[OF built] by simp
  next
    case False
    with wf x have "wf_node x" by (rule walk_wf)
    then show ?thesis by (rule wf_node_val)
  qed
  with x have f: "fst (Trie_add_from (sequence b) b (root t)) = Inl DuplicateKeymap"
    by (rule add_rejects_existing)
  with wf have "snd (Trie_add_from (sequence b) b (root t)) = root t"
    by (rule add_failure_unchanged)
  with f show ?thesis by (cases t) (simp add: Trie_add_def Let_def)
qed

theorem add_rejects_duplicate_or_prefix_witness:
  "Trie_add (KeyMap_new ''other'' [KeyPress_ctrl ''b''])
     (snd (addAll defaultHotkeys Trie_new)) =
     (Inl DuplicateKeymap, snd (addAll defaultHotkeys Trie_new)) \<and>
   Trie_add (KeyMap_new ''other'' [KeyPress_ctrl ''b'', KeyPress_just ''h''])
     (snd (addAll defaultHotkeys Trie_new)) =
     (Inl DuplicateKeymap, snd (addAll defaultHotkeys Trie_new))"
proof -
  have built: "addAll defaultHotkeys Trie_new = (Inr (), snd (addAll defaultHotkeys Trie_new))"
    by code_simp
  have k: "KeyMap_new ''editor:focus-left'' [KeyPress_ctrl ''b'', KeyPress_just ''h'']
      \<in> set defaultHotkeys"
    by (simp add: defaultHotkeys_def)
  have p1: "prefix (map serialize (sequence (KeyMap_new ''other'' [KeyPress_ctrl ''b''])))
      (map serialize (sequence
        (KeyMap_new ''editor:focus-left'' [KeyPress_ctrl ''b'', KeyPress_just ''h''])))"
    by (simp add: KeyMap_new_def)
  have p2: "prefix (map serialize (sequence
        (KeyMap_new ''other'' [KeyPress_ctrl ''b'', KeyPress_just ''h''])))
      (map serialize (sequence
        (KeyMap_new ''editor:focus-left'' [KeyPress_ctrl ''b'', KeyPress_just ''h''])))"
    by (simp add: KeyMap_new_def)
  from add_rejects_duplicate_or_prefix [OF built k p1]
    add_rejects_duplicate_or_prefix [OF built k p2]
  show ?thesis by simp
qed

text \<open>
  C2. Over a trie built by successful calls of \<^verbatim>\<open>add\<close>, and after any presses fed to a
  new matcher, \<open>fullMatch\<close> returns a keymap exactly when the state is \<open>SuccessMatch\<close> and
  \<open>allMatches\<close> has exactly one entry; in \<open>SuccessMatch\<close> the entries of \<open>allMatches\<close> are
  those below the node of the current buffer. For any matcher at all, \<open>fullMatch\<close>
  returns \<^verbatim>\<open>null\<close> in \<open>SuccessMatch\<close> when the number of entries is not one.
\<close>

theorem fullMatch_iff_single_success:
  assumes "addAll ks Trie_new = (Inr (), t)"
  shows "((\<exists>k. fullMatch (feed (KeyMatcher_new t) ps) = Present k) \<longleftrightarrow>
            currentState (feed (KeyMatcher_new t) ps) = SuccessMatch \<and>
            length (allMatches (feed (KeyMatcher_new t) ps)) = 1) \<and>
         (currentState (feed (KeyMatcher_new t) ps) = SuccessMatch \<longrightarrow>
            allMatches (feed (KeyMatcher_new t) ps) =
              (case bestMatch t (currentSequence (feed (KeyMatcher_new t) ps)) of
                 None \<Rightarrow> [] | Some n \<Rightarrow> leafValues n)) \<and>
         (currentState m = SuccessMatch \<and> length (allMatches m) \<noteq> 1 \<longrightarrow>
            fullMatch m = Null)"
proof -
  from assms have "wf_root (root t)" by (rule addAll_wf) (rule Trie_new_wf)
  then have "currentState (feed (KeyMatcher_new t) ps) = SuccessMatch \<Longrightarrow>
      \<exists>k. currentMatches (feed (KeyMatcher_new t) ps) = [Present k]"
    by (rule reachable_success_single)
  then have 1: "(\<exists>k. fullMatch (feed (KeyMatcher_new t) ps) = Present k) \<longleftrightarrow>
            currentState (feed (KeyMatcher_new t) ps) = SuccessMatch \<and>
            length (allMatches (feed (KeyMatcher_new t) ps)) = 1"
    by (auto simp: fullMatch_def allMatches_def Let_def)
  have 2: "currentState (feed (KeyMatcher_new t) ps) = SuccessMatch \<longrightarrow>
            allMatches (feed (KeyMatcher_new t) ps) =
              (case bestMatch t (currentSequence (feed (KeyMatcher_new t) ps)) of
                 None \<Rightarrow> [] | Some n \<Rightarrow> leafValues n)"
  proof (cases ps rule: rev_cases)
    case Nil
    then show ?thesis by (simp add: feed_def KeyMatcher_new_def)
  next
    case (snoc qs q)
    have "trie (feed (KeyMatcher_new t) (qs @ [q])) = t"
      by (simp add: trie_feed KeyMatcher_new_def)
    with snoc show ?thesis
      using matches_follow_buffer[of "feed (KeyMatcher_new t) qs" q]
      by (simp add: feed_snoc allMatches_def)
  qed
  have 3: "currentState m = SuccessMatch \<and> length (allMatches m) \<noteq> 1 \<longrightarrow> fullMatch m = Null"
    by (simp add: fullMatch_def Let_def)
  from 1 2 3 show ?thesis by (intro conjI)
qed

theorem fullMatch_iff_single_success_witness:
  "fullMatch (feed (KeyMatcher_new (snd (addAll defaultHotkeys Trie_new)))
      [KeyPress_ctrl ''b'', KeyPress_just ''h'']) =
     Present (KeyMap_new ''editor:focus-left'' [KeyPress_ctrl ''b'', KeyPress_just ''h'']) \<and>
   currentState (feed (KeyMatcher_new (snd (addAll defaultHotkeys Trie_new)))
      [KeyPress_ctrl ''b'', KeyPress_just ''h'']) = SuccessMatch \<and>
   length (allMatches (feed (KeyMatcher_new (snd (addAll defaultHotkeys Trie_new)))
      [KeyPress_ctrl ''b'', KeyPress_just ''h''])) = 1 \<and>
   allMatches (feed (KeyMatcher_new (snd (addAll defaultHotkeys Trie_new)))
      [KeyPress_ctrl ''b'', KeyPress_just ''h'']) =
     (case bestMatch (snd (addAll defaultHotkeys Trie_new))
         (currentSequence (feed (KeyMatcher_new (snd (addAll defaultHotkeys Trie_new)))
            [KeyPress_ctrl ''b'', KeyPress_just ''h''])) of
        None \<Rightarrow> [] | Some n \<Rightarrow> leafValues n) \<and>
   currentState \<lparr>trie = Trie_new, currentState = SuccessMatch, currentSequence = [],
      currentMatches = []\<rparr> = SuccessMatch \<and>
   length (allMatches \<lparr>trie = Trie_new, currentState = SuccessMatch, currentSequence = [],
      currentMatches = []\<rparr>) \<noteq> 1 \<and>
   fullMatch \<lparr>trie = Trie_new, currentState = SuccessMatch, currentSequence = [],
      currentMatches = []\<rparr> = Null"
proof -
  have built: "addAll defaultHotkeys Trie_new = (Inr (), snd (addAll defaultHotkeys Trie_new))"
    by code_simp
  have f: "fullMatch (feed (KeyMatcher_new (snd (addAll defaultHotkeys Trie_new)))
      [KeyPress_ctrl ''b'', KeyPress_just ''h'']) =
     Present (KeyMap_new ''editor:focus-left'' [KeyPress_ctrl ''b'', KeyPress_just ''h''])"
    by code_simp
  have e: "currentState \<lparr>trie = Trie_new, currentState = SuccessMatch, currentSequence = [],
      currentMatches = []\<rparr> = SuccessMatch \<and>
    length (allMatches \<lparr>trie = Trie_new, currentState = SuccessMatch, currentSequence = [],
      currentMatches = []\<rparr>) \<noteq> 1"
    by (simp add: allMatches_def)
  from fullMatch_iff_single_success [OF built, of "[KeyPress_ctrl ''b'', KeyPress_just ''h'']"
      "\<lparr>trie = Trie_new, currentState = SuccessMatch, currentSequence = [],
        currentMatches = []\<rparr>"] f e
  show ?thesis by blast
qed

text \<open>
  C3, as stated, fails. After a modifier-only press in a started match the buffer is
  popped back, but \<open>currentMatches\<close> was computed from the buffer with the press still in
  it: after Ctrl+b and then Shift alone, the buffer is Ctrl+b, four keymaps lie below its
  node, and \<open>allMatches\<close> is empty. And after a press that ends in \<open>NoMatch\<close>, \<^verbatim>\<open>reset\<close> has
  emptied both the buffer and \<open>currentMatches\<close>, while all six keymaps lie below the node
  of the empty buffer, the root.
\<close>

theorem allMatches_stale_after_modifier:
  "currentState (feed (KeyMatcher_new (snd (addAll defaultHotkeys Trie_new)))
      [KeyPress_ctrl ''b'', KeyPress_shift ''Shift'']) = RetainedMatch \<and>
   currentSequence (feed (KeyMatcher_new (snd (addAll defaultHotkeys Trie_new)))
      [KeyPress_ctrl ''b'', KeyPress_shift ''Shift'']) = [KeyPress_ctrl ''b''] \<and>
   allMatches (feed (KeyMatcher_new (snd (addAll defaultHotkeys Trie_new)))
      [KeyPress_ctrl ''b'', KeyPress_shift ''Shift'']) = [] \<and>
   map_option leafValues (bestMatch (snd (addAll defaultHotkeys Trie_new)) [KeyPress_ctrl ''b'']) =
     Some [Present (KeyMap_new ''editor:focus-left'' [KeyPress_ctrl ''b'', KeyPress_just ''h'']),
           Present (KeyMap_new ''editor:focus-right'' [KeyPress_ctrl ''b'', KeyPress_just ''l'']),
           Present (KeyMap_new ''editor:focus-top'' [KeyPress_ctrl ''b'', KeyPress_just ''k'']),
           Present (KeyMap_new ''editor:focus-bottom'' [KeyPress_ctrl ''b'', KeyPress_just ''j''])] \<and>
   currentState (feed (KeyMatcher_new (snd (addAll defaultHotkeys Trie_new)))
      [KeyPress_just ''x'']) = NoMatch \<and>
   currentSequence (feed (KeyMatcher_new (snd (addAll defaultHotkeys Trie_new)))
      [KeyPress_just ''x'']) = [] \<and>
   allMatches (feed (KeyMatcher_new (snd (addAll defaultHotkeys Trie_new)))
      [KeyPress_just ''x'']) = [] \<and>
   map_option (length \<circ> leafValues) (bestMatch (snd (addAll defaultHotkeys Trie_new)) []) = Some 6"
  by code_simp

text \<open>
  C3, amended. After every call of \<open>advance\<close> that ends in a state other than \<open>NoMatch\<close>
  and \<open>RetainedMatch\<close>, \<open>allMatches\<close> is exactly the list of values at the leaves below the
  node of the buffer as the call leaves it, and empty when the buffer reaches no node;
  after a call that ends in \<open>NoMatch\<close>, \<open>allMatches\<close> and the buffer are empty.
\<close>

theorem allMatches_follow_buffer:
  "(currentState (KeyMatcher_advance m c) = NoMatch \<longrightarrow>
      allMatches (KeyMatcher_advance m c) = [] \<and> currentSequence (KeyMatcher_advance m c) = []) \<and>
   (currentState (KeyMatcher_advance m c) \<noteq> NoMatch \<and>
    currentState (KeyMatcher_advance m c) \<noteq> RetainedMatch \<longrightarrow>
      allMatches (KeyMatcher_advance m c) =
        (case bestMatch (trie (KeyMatcher_advance m c))
                (currentSequence (KeyMatcher_advance m c)) of
           None \<Rightarrow> [] | Some n \<Rightarrow> leafValues n))"
  using advance_NoMatch_empty[of m c] matches_follow_buffer[of m c]
  by (simp add: allMatches_def)

theorem allMatches_follow_buffer_witness:
  "currentState (KeyMatcher_advance (KeyMatcher_new (snd (addAll defaultHotkeys Trie_new)))
      (KeyPress_ctrl ''b'')) = StartedMatch \<and>
   allMatches (KeyMatcher_advance (KeyMatcher_new (snd (addAll defaultHotkeys Trie_new)))
      (KeyPress_ctrl ''b'')) =
     (case bestMatch (trie (KeyMatcher_advance (KeyMatcher_new
             (snd (addAll defaultHotkeys Trie_new))) (KeyPress_ctrl ''b'')))
           (currentSequence (KeyMatcher_advance (KeyMatcher_new
             (snd (addAll defaultHotkeys Trie_new))) (KeyPress_ctrl ''b''))) of
        None \<Rightarrow> [] | Some n \<Rightarrow> leafValues n) \<and>
   length (allMatches (KeyMatcher_advance (KeyMatcher_new (snd (addAll defaultHotkeys Trie_new)))
      (KeyPress_ctrl ''b''))) = 4"
proof -
  have s: "currentState (KeyMatcher_advance (KeyMatcher_new (snd (addAll defaultHotkeys Trie_new)))
      (KeyPress_ctrl ''b'')) = StartedMatch"
    by code_simp
  have l: "length (allMatches (KeyMatcher_advance (KeyMatcher_new
      (snd (addAll defaultHotkeys Trie_new))) (KeyPress_ctrl ''b''))) = 4"
    by code_simp
  from s l allMatches_follow_buffer [of "KeyMatcher_new (snd (addAll defaultHotkeys Trie_new))"
      "KeyPress_ctrl ''b''"]
  show ?thesis by simp
qed

text \<open>
  C4. Let a keymap be registered in the trie: the walk along its own sequence ends at a
  leaf that holds it. Feed a new matcher the sequence with any modifier-only presses
  put in before each press after the first, none of those presses of the sequence being
  modifier-only itself. The matcher ends exactly as it does on the sequence alone: in
  \<open>SuccessMatch\<close>, with \<open>fullMatch\<close> returning the keymap.
\<close>

theorem modifier_noise_ignored:
  assumes "bestMatch t (sequence k) = Some n" and "isLeaf n" and "val n = Present k"
    and "sequence k = c # cs"
    and "\<forall>x \<in> set cs. classification x \<noteq> NoKey"
    and "length noise = length cs"
    and "\<forall>bs \<in> set noise. \<forall>b \<in> set bs. classification b = NoKey"
  shows "feed (KeyMatcher_new t) (c # concat (map2 (\<lambda>bs x. bs @ [x]) noise cs)) =
           feed (KeyMatcher_new t) (sequence k) \<and>
         currentState (feed (KeyMatcher_new t) (c # concat (map2 (\<lambda>bs x. bs @ [x]) noise cs))) =
           SuccessMatch \<and>
         fullMatch (feed (KeyMatcher_new t) (c # concat (map2 (\<lambda>bs x. bs @ [x]) noise cs))) =
           Present k"
proof -
  from assms(1,4) have w: "bestMatch t (c # cs) = Some n" by simp
  have noisy: "feed (KeyMatcher_new t) (c # concat (map2 (\<lambda>bs x. bs @ [x]) noise cs)) =
     \<lparr>trie = t, currentState = SuccessMatch,
      currentSequence = c # cs, currentMatches = leafValues n\<rparr>"
    using w assms(2,5,6,7) by (rule noisy_sequence)
  have "feed (KeyMatcher_new t) (c # concat (map2 (\<lambda>bs x. bs @ [x]) (replicate (length cs) []) cs)) =
     \<lparr>trie = t, currentState = SuccessMatch,
      currentSequence = c # cs, currentMatches = leafValues n\<rparr>"
    using w assms(2,5) by (rule noisy_sequence) simp_all
  then have plain: "feed (KeyMatcher_new t) (sequence k) =
     \<lparr>trie = t, currentState = SuccessMatch,
      currentSequence = c # cs, currentMatches = leafValues n\<rparr>"
    by (simp only: no_noise assms(4))
  from assms(2,3) have "leafValues n = [Present k]" by (simp add: leafValues_leaf)
  with noisy plain show ?thesis by (simp add: fullMatch_def allMatches_def)
qed

theorem modifier_noise_ignored_witness:
  "feed (KeyMatcher_new (snd (addAll defaultHotkeys Trie_new)))
      [KeyPress_ctrl ''b'', KeyPress_shift ''Shift'', KeyPress_ctrl ''Control'', KeyPress_just ''j''] =
   feed (KeyMatcher_new (snd (addAll defaultHotkeys Trie_new)))
      [KeyPress_ctrl ''b'', KeyPress_just ''j''] \<and>
   currentState (feed (KeyMatcher_new (snd (addAll defaultHotkeys Trie_new)))
      [KeyPress_ctrl ''b'', KeyPress_shift ''Shift'', KeyPress_ctrl ''Control'', KeyPress_just ''j'']) =
     SuccessMatch \<and>
   fullMatch (feed (KeyMatcher_new (snd (addAll defaultHotkeys Trie_new)))
      [KeyPress_ctrl ''b'', KeyPress_shift ''Shift'', KeyPress_ctrl ''Control'', KeyPress_just ''j'']) =
     Present \<lparr>sequence = [KeyPress_ctrl ''b'', KeyPress_just ''j''],
              commandID = ''editor:focus-bottom''\<rparr>"
proof -
  define k where "k = \<lparr>sequence = [KeyPress_ctrl ''b'', KeyPress_just ''j''],
                        commandID = ''editor:focus-bottom''\<rparr>"
  define n where "n = TrieNode [] (Present k)"
  have 1: "bestMatch (snd (addAll defaultHotkeys Trie_new)) (sequence k) = Some n"
    unfolding n_def k_def by code_simp
  have 2: "isLeaf n" by (simp add: n_def isLeaf_def)
  have 3: "val n = Present k" by (simp add: n_def)
  have 4: "sequence k = KeyPress_ctrl ''b'' # [KeyPress_just ''j'']"
    by (simp add: k_def)
  have 5: "\<forall>x \<in> set [KeyPress_just ''j'']. classification x \<noteq> NoKey"
    by (simp add: classification_def KeyPress_just_def KeyPress_new_def)
  have 6: "length ([KeyPress_shift ''Shift'', KeyPress_ctrl ''Control''] # []) =
      length [KeyPress_just ''j'']"
    by simp
  have 7: "\<forall>bs \<in> set ([KeyPress_shift ''Shift'', KeyPress_ctrl ''Control''] # []).
      \<forall>b \<in> set bs. classification b = NoKey"
    by (simp add: classification_def KeyPress_shift_def KeyPress_ctrl_def KeyPress_new_def)
  have 8: "KeyPress_ctrl ''b'' # concat (map2 (\<lambda>bs x. bs @ [x])
      ([KeyPress_shift ''Shift'', KeyPress_ctrl ''Control''] # []) [KeyPress_just ''j'']) =
      [KeyPress_ctrl ''b'', KeyPress_shift ''Shift'', KeyPress_ctrl ''Control'', KeyPress_just ''j'']"
    by simp
  from modifier_noise_ignored [OF 1 2 3 4 5 6 7, unfolded 8 4] show ?thesis
    unfolding k_def .
qed

text \<open>
  C5. A matcher that has just reached \<open>SuccessMatch\<close> or \<open>InvalidMatch\<close> answers the next
  press exactly as a new matcher over the same trie answers it: the whole resulting
  matcher is the same, hence its state, its buffer, \<open>allMatches\<close> and \<open>fullMatch\<close>.
\<close>

theorem matcher_reentrancy:
  assumes "currentState m = SuccessMatch \<or> currentState m = InvalidMatch"
  shows "KeyMatcher_advance m c = KeyMatcher_advance (KeyMatcher_new (trie m)) c
    \<and> allMatches (KeyMatcher_advance m c) =
        allMatches (KeyMatcher_advance (KeyMatcher_new (trie m)) c)
    \<and> fullMatch (KeyMatcher_advance m c) =
        fullMatch (KeyMatcher_advance (KeyMatcher_new (trie m)) c)"
  using assms by (simp only: advance_terminal simp_thms)

theorem matcher_reentrancy_witness:
  "currentState (feed (KeyMatcher_new (snd (addAll defaultHotkeys Trie_new)))
       [KeyPress_ctrl ''b'', KeyPress_just ''h'']) = SuccessMatch \<and>
   KeyMatcher_advance (feed (KeyMatcher_new (snd (addAll defaultHotkeys Trie_new)))
       [KeyPress_ctrl ''b'', KeyPress_just ''h'']) (KeyPress_ctrl ''b'') =
   KeyMatcher_advance (KeyMatcher_new (trie (feed (KeyMatcher_new
       (snd (addAll defaultHotkeys Trie_new))) [KeyPress_ctrl ''b'', KeyPress_just ''h''])))
     (KeyPress_ctrl ''b'')"
proof -
  have h: "currentState (feed (KeyMatcher_new (snd (addAll defaultHotkeys Trie_new)))
       [KeyPress_ctrl ''b'', KeyPress_just ''h'']) = SuccessMatch"
    by code_simp
  then show ?thesis
    using matcher_reentrancy [of "feed (KeyMatcher_new (snd (addAll defaultHotkeys Trie_new)))
       [KeyPress_ctrl ''b'', KeyPress_just ''h'']" "KeyPress_ctrl ''b''"]
    by simp
qed

text \<open>
  C6. In \<open>PendingConfirmation\<close> the press is pushed before the switch, and the single
  \<^verbatim>\<open>pop\<close> of the Backspace branch removes the Backspace itself: after Escape and then
  Backspace on a new machine, \<open>presses\<close> still holds the pending Escape, in state
  \<open>BacktrackedKey\<close>.
\<close>

theorem backspace_keeps_pending_key:
  "presses (foldl RegisterMachine_advance RegisterMachine_new
     [KeyPress_just ''Escape'', KeyPress_just ''Backspace'']) = [KeyPress_just ''Escape''] \<and>
   registerState (foldl RegisterMachine_advance RegisterMachine_new
     [KeyPress_just ''Escape'', KeyPress_just ''Backspace'']) = BacktrackedKey \<and>
   registerState (foldl RegisterMachine_advance RegisterMachine_new
     [KeyPress_just ''Escape'']) = PendingConfirmation"
  by code_simp

text \<open>
  C7, as stated, fails: a key whose name starts with a modifier marker serializes like
  the shorter key with that modifier held.
\<close>

theorem serialize_collision:
  "KeyPress_just ''Ctrl + a'' \<noteq> KeyPress_ctrl ''a'' \<and>
   serialize (KeyPress_just ''Ctrl + a'') = serialize (KeyPress_ctrl ''a'')"
  by (simp add: serialize_def repr_def KeyPress_just_def KeyPress_ctrl_def KeyPress_new_def
        ctrlMarker_def)

text \<open>
  C7, amended. Two different key presses whose key names do not start with any of the
  four modifier markers of \<open>repr\<close> have different serializations.
\<close>

theorem serialize_injective:
  assumes "\<forall>mk \<in> {metaMarker, ctrlMarker, altMarker, shiftMarker}. \<not> prefix mk (key c1)"
    and "\<forall>mk \<in> {metaMarker, ctrlMarker, altMarker, shiftMarker}. \<not> prefix mk (key c2)"
    and "c1 \<noteq> c2"
  shows "serialize c1 \<noteq> serialize c2"
  using assms serialize_inj_on_plain_keys [of c1 c2] by blast

theorem serialize_injective_witness:
  "KeyPress_ctrl ''b'' \<noteq> KeyPress_just ''b'' \<and>
   \<not> prefix metaMarker ''b'' \<and> \<not> prefix ctrlMarker ''b'' \<and>
   \<not> prefix altMarker ''b'' \<and> \<not> prefix shiftMarker ''b'' \<and>
   serialize (KeyPress_ctrl ''b'') \<noteq> serialize (KeyPress_just ''b'')"
proof -
  have m: "\<not> prefix metaMarker ''b'' \<and> \<not> prefix ctrlMarker ''b'' \<and>
      \<not> prefix altMarker ''b'' \<and> \<not> prefix shiftMarker ''b''"
    by (simp add: metaMarker_def ctrlMarker_def altMarker_def shiftMarker_def)
  then have h1: "\<forall>mk \<in> {metaMarker, ctrlMarker, altMarker, shiftMarker}.
      \<not> prefix mk (key (KeyPress_ctrl ''b''))"
    by (simp add: KeyPress_ctrl_def KeyPress_new_def)
  from m have h2: "\<forall>mk \<in> {metaMarker, ctrlMarker, altMarker, shiftMarker}.
      \<not> prefix mk (key (KeyPress_just ''b''))"
    by (simp add: KeyPress_just_def KeyPress_new_def)
  have h3: "KeyPress_ctrl ''b'' \<noteq> KeyPress_just ''b''"
    by (simp add: KeyPress_ctrl_def KeyPress_just_def KeyPress_new_def)
  from m h3 serialize_injective [OF h1 h2 h3] show ?thesis by blast
qed

text \<open>
  C8. The key-down handler calls \<^verbatim>\<open>preventDefault\<close> exactly when the state returned by
  \<open>advance\<close> on the press of the event is not \<open>NoMatch\<close>.
\<close>

theorem keydown_prevents_default:
  "defaultPrevented (handleKeyDown m event) =
     (currentState (KeyMatcher_advance m (fromEvent event)) \<noteq> NoMatch) \<and>
   matcher (handleKeyDown m event) = KeyMatcher_advance m (fromEvent event)"
  by (simp add: handleKeyDown_def Let_def split: KeyMatchingState.splits)

text \<open>
  C9. Both \<open>advance\<close> functions are total, and a call stack of depth two is always
  enough: with two frames the depth-bounded call returns, from every state and on every
  press, what \<open>advance\<close> returns. One frame is not enough exactly from the terminal
  states, where \<open>advance\<close> resets and calls itself once.
\<close>

theorem advance_depth_bounded:
  "KeyMatcher_advance_depth 2 m c = Some (KeyMatcher_advance m c) \<and>
   RegisterMachine_advance_depth 2 r e = Some (RegisterMachine_advance r e) \<and>
   (KeyMatcher_advance_depth 1 m c = None \<longleftrightarrow>
      currentState m = SuccessMatch \<or> currentState m = InvalidMatch) \<and>
   (RegisterMachine_advance_depth 1 r e = None \<longleftrightarrow>
      registerState r = FinishedRegistering)"
  using matcher_depth_2 [of 0 m c] register_depth_2 [of 0 r e]
    matcher_depth_1_None [of m c] register_depth_1_None [of r e]
  by (simp only: numeral_2_eq_2 One_nat_def simp_thms)

text \<open>
  C10. A matcher in state \<open>NoMatch\<close> has an empty buffer and no current matches: this
  holds of a new matcher and after any presses fed to it, and every call of \<open>advance\<close>
  that ends in \<open>NoMatch\<close> leaves both empty, whatever the matcher it started from.
\<close>

theorem nomatch_invariant:
  "(currentState (feed (KeyMatcher_new t) ps) = NoMatch \<longrightarrow>
      currentSequence (feed (KeyMatcher_new t) ps) = [] \<and>
      allMatches (feed (KeyMatcher_new t) ps) = []) \<and>
   (currentState (KeyMatcher_advance m c) = NoMatch \<longrightarrow>
      currentSequence (KeyMatcher_advance m c) = [] \<and>
      allMatches (KeyMatcher_advance m c) = [])"
proof (intro conjI)
  show "currentState (feed (KeyMatcher_new t) ps) = NoMatch \<longrightarrow>
      currentSequence (feed (KeyMatcher_new t) ps) = [] \<and>
      allMatches (feed (KeyMatcher_new t) ps) = []"
  proof (cases ps rule: rev_cases)
    case Nil
    then show ?thesis by (simp add: feed_def KeyMatcher_new_def allMatches_def)
  next
    case (snoc qs q)
    then show ?thesis using advance_NoMatch_empty [of "feed (KeyMatcher_new t) qs" q]
      by (simp add: feed_snoc allMatches_def)
  qed
next
  show "currentState (KeyMatcher_advance m c) = NoMatch \<longrightarrow>
      currentSequence (KeyMatcher_advance m c) = [] \<and>
      allMatches (KeyMatcher_advance m c) = []"
    using advance_NoMatch_empty [of m c] by (simp add: allMatches_def)
qed

theorem nomatch_invariant_witness:
  "currentState (feed (KeyMatcher_new (snd (addAll defaultHotkeys Trie_new)))
      [KeyPress_ctrl ''b'', KeyPress_just ''x'', KeyPress_just ''y'']) = NoMatch \<and>
   currentSequence (feed (KeyMatcher_new (snd (addAll defaultHotkeys Trie_new)))
      [KeyPress_ctrl ''b'', KeyPress_just ''x'', KeyPress_just ''y'']) = [] \<and>
   allMatches (feed (KeyMatcher_new (snd (addAll defaultHotkeys Trie_new)))
      [KeyPress_ctrl ''b'', KeyPress_just ''x'', KeyPress_just ''y'']) = [] \<and>
   currentState (KeyMatcher_advance (feed (KeyMatcher_new (snd (addAll defaultHotkeys Trie_new)))
      [KeyPress_ctrl ''b'', KeyPress_just ''x'']) (KeyPress_just ''y'')) = NoMatch \<and>
   currentSequence (KeyMatcher_advance (feed (KeyMatcher_new
      (snd (addAll defaultHotkeys Trie_new))) [KeyPress_ctrl ''b'', KeyPress_just ''x''])
      (KeyPress_just ''y'')) = [] \<and>
   allMatches (KeyMatcher_advance (feed (KeyMatcher_new
      (snd (addAll defaultHotkeys Trie_new))) [KeyPress_ctrl ''b'', KeyPress_just ''x''])
      (KeyPress_just ''y'')) = []"
proof -
  have h1: "currentState (feed (KeyMatcher_new (snd (addAll defaultHotkeys Trie_new)))
      [KeyPress_ctrl ''b'', KeyPress_just ''x'', KeyPress_just ''y'']) = NoMatch"
    by code_simp
  have h2: "currentState (KeyMatcher_advance (feed (KeyMatcher_new
      (snd (addAll defaultHotkeys Trie_new))) [KeyPress_ctrl ''b'', KeyPress_just ''x''])
      (KeyPress_just ''y'')) = NoMatch"
    by code_simp
  from h1 h2
    nomatch_invariant [of "snd (addAll defaultHotkeys Trie_new)"
      "[KeyPress_ctrl ''b'', KeyPress_just ''x'', KeyPress_just ''y'']"
      "feed (KeyMatcher_new (snd (addAll defaultHotkeys Trie_new)))
        [KeyPress_ctrl ''b'', KeyPress_just ''x'']"
      "KeyPress_just ''y''"]
  show ?thesis by blast
qed

end
